theory Spec2Isabelle
  imports Main
begin

unbundle bit_operations_syntax

section \<open>Python values used by \<open>bitcoin_tools/analysis/leveldb/utils.py\<close>\<close>

text \<open>
  The module works on \<open>hex str\<close> values: Python 2 strings holding two hexadecimal
  characters per byte. They are modelled as \<open>string\<close>; a slice \<open>s[a:a+k]\<close> with
  non-negative bounds is \<open>take k (drop a s)\<close>, which, like the Python slice, is shorter
  than \<open>k\<close> (possibly empty) when it reaches past the end. Python integers are
  unbounded and are modelled as \<open>int\<close>. Exceptions are values of type \<open>error\<close>.
\<close>

datatype error = ValueError | AssertionError | KeyError

text \<open>
  \<open>int(s, 16)\<close> on a hex str: the value of a non-empty string of hexadecimal digits
  (either case); \<open>ValueError\<close> (here \<open>None\<close>) on the empty string and on a string with a
  character that is not a hexadecimal digit. (Python's \<open>int\<close> also accepts a sign, a
  \<open>0x\<close> prefix and surrounding white space; a hex str has none of them.)
\<close>

definition digit_val :: "char \<Rightarrow> int option" where
  "digit_val c =
     (let k = (of_char c :: nat) in
      if 48 \<le> k \<and> k \<le> 57 then Some (int k - 48)
      else if 97 \<le> k \<and> k \<le> 102 then Some (int k - 87)
      else if 65 \<le> k \<and> k \<le> 70 then Some (int k - 55)
      else None)"

fun int16_acc :: "int \<Rightarrow> string \<Rightarrow> int option" where
  "int16_acc acc [] = Some acc"
| "int16_acc acc (c # cs) =
     (case digit_val c of None \<Rightarrow> None | Some d \<Rightarrow> int16_acc (16 * acc + d) cs)"

definition int16 :: "string \<Rightarrow> int option" where
  "int16 s = (if s = [] then None else int16_acc 0 s)"

text \<open>
  \<open>format(i, '02x')\<close>: lower-case hexadecimal digits, padded with zeros to two
  characters; a negative number prints a minus sign and its digits.
\<close>

definition hex_digit :: "nat \<Rightarrow> char" where
  "hex_digit d = ''0123456789abcdef'' ! d"

fun hex_nat :: "nat \<Rightarrow> string" where
  "hex_nat n = (if n < 16 then [hex_digit n] else hex_nat (n div 16) @ [hex_digit (n mod 16)])"

definition format_02x :: "int \<Rightarrow> string" where
  "format_02x i =
     (if i < 0 then CHR ''-'' # hex_nat (nat (- i))
      else (let h = hex_nat (nat i) in if length h < 2 then CHR ''0'' # h else h))"

section \<open>Varint codec (\<open>b128_encode\<close>, \<open>b128_decode\<close>, \<open>parse_b128\<close>)\<close>

text \<open>
  The loop of \<open>b128_encode\<close> (lines 50-57): \<open>tmp\<close> collects the 7-bit groups, least
  significant first; every group but the first appended gets the bit \<open>0x80\<close>.
  \<open>l\<close> is the index of the element just appended.
\<close>

function b128_encode_loop :: "int \<Rightarrow> nat \<Rightarrow> int list \<Rightarrow> int list" where
  "b128_encode_loop n l tmp =
     (let tmp1 = tmp @ [n AND 0x7F];
          tmp2 = (if l \<noteq> 0 then tmp1[l := (tmp1 ! l) OR 0x80] else tmp1)
      in if n \<le> 0x7F then tmp2
         else b128_encode_loop (drop_bit 7 n - 1) (l + 1) tmp2)"
  by pat_completeness auto
termination
proof (relation "measure (\<lambda>(n, l, tmp). nat n)")
  show "wf (measure (\<lambda>(n, l, tmp). nat n))" by simp
next
  fix n :: int and l :: nat and tmp x xa :: "int list"
  assume "\<not> n \<le> 0x7F"
  then have "drop_bit 7 n \<le> n" "0 < n"
    by (simp_all add: drop_bit_eq_div)
  then show "((drop_bit 7 n - 1, l + 1, xa), (n, l, tmp)) \<in> measure (\<lambda>(n, l, tmp). nat n)"
    by simp
qed

definition b128_encode :: "int \<Rightarrow> string" where
  "b128_encode n = concat (map format_02x (rev (b128_encode_loop n 0 [])))"

text \<open>
  The loop of \<open>b128_decode\<close> (lines 89-96). \<open>data[2*i:2*i+2]\<close> is empty once \<open>2*i\<close>
  reaches the end of \<open>data\<close>, and \<open>int('', 16)\<close> raises \<open>ValueError\<close>: the loop ends.
\<close>

function b128_decode_loop :: "string \<Rightarrow> int \<Rightarrow> nat \<Rightarrow> error + int" where
  "b128_decode_loop data n i =
     (case int16 (take 2 (drop (2 * i) data)) of
        None \<Rightarrow> Inl ValueError
      | Some d \<Rightarrow>
          (let n1 = push_bit 7 n OR (d AND 0x7F)
           in if d AND 0x80 \<noteq> 0 then b128_decode_loop data (n1 + 1) (i + 1)
              else Inr n1))"
  by pat_completeness auto
termination
proof (relation "measure (\<lambda>(data, n, i). length data - 2 * i)")
  show "wf (measure (\<lambda>(data, n, i). length data - 2 * i))" by simp
next
  fix data :: string and n :: int and i :: nat and x2 x :: int
  assume "int16 (take 2 (drop (2 * i) data)) = Some x2"
  then have "take 2 (drop (2 * i) data) \<noteq> []"
    by (auto simp: int16_def)
  then have "2 * i < length data" by simp
  then show "((data, x + 1, i + 1), (data, n, i)) \<in> measure (\<lambda>(data, n, i). length data - 2 * i)"
    by simp
qed

definition b128_decode :: "string \<Rightarrow> error + int" where
  "b128_decode data = b128_decode_loop data 0 0"

text \<open>
  \<open>parse_b128\<close> (lines 110-120): the first byte is read before the loop, the
  following ones in it, as long as the last byte read has the bit \<open>0x80\<close>.
\<close>

function parse_b128_while :: "string \<Rightarrow> string \<Rightarrow> nat \<Rightarrow> int \<Rightarrow> error + (string \<times> nat)" where
  "parse_b128_while utxo data offset more_bytes =
     (if more_bytes \<noteq> 0 then
        (case int16 (take 2 (drop offset utxo)) of
           None \<Rightarrow> Inl ValueError
         | Some d \<Rightarrow>
             parse_b128_while utxo (data @ take 2 (drop offset utxo)) (offset + 2) (d AND 0x80))
      else Inr (data, offset))"
  by pat_completeness auto
termination
proof (relation "measure (\<lambda>(utxo, data, offset, more_bytes). length utxo - offset)")
  show "wf (measure (\<lambda>(utxo, data, offset, more_bytes). length utxo - offset))" by simp
next
  fix utxo data :: string and offset :: nat and more_bytes x2 :: int
  assume "int16 (take 2 (drop offset utxo)) = Some x2"
  then have "take 2 (drop offset utxo) \<noteq> []"
    by (auto simp: int16_def)
  then have "offset < length utxo" by simp
  then show "((utxo, data @ take 2 (drop offset utxo), offset + 2, x2 AND 0x80),
              (utxo, data, offset, more_bytes))
             \<in> measure (\<lambda>(utxo, data, offset, more_bytes). length utxo - offset)"
    by simp
qed

definition parse_b128 :: "string \<Rightarrow> nat \<Rightarrow> error + (string \<times> nat)" where
  "parse_b128 utxo offset =
     (let data = take 2 (drop offset utxo) in
      case int16 data of
        None \<Rightarrow> Inl ValueError
      | Some d \<Rightarrow> parse_b128_while utxo data (offset + 2) (d AND 0x80))"


section \<open>Record decoder (\<open>decode_utxo\<close>)\<close>

text \<open>
  The dictionaries built by \<open>decode_utxo\<close>: one per output, with the keys \<open>index\<close>,
  \<open>amount\<close>, \<open>out_type\<close> and \<open>data\<close>, and the decoded entry, with the keys
  \<open>version\<close>, \<open>coinbase\<close>, \<open>outs\<close> and \<open>height\<close>.
\<close>

record out =
  out_index :: nat
  out_amount :: int
  out_type :: int
  out_data :: string

record utxo_entry =
  utxo_version :: int
  utxo_coinbase :: int
  utxo_outs :: "out list"
  utxo_height :: int

text \<open>
  Modelled from the spec: \<open>NSPECIALSCRIPTS\<close>, a constant of the package
  \<open>bitcoin_tools.analysis.leveldb\<close> that is not among the sources. The data model gives
  the tags from 6 on as the raw script length plus this fixed offset, and the tags 0 to 5
  are the special scripts: the offset is 6.
\<close>

definition NSPECIALSCRIPTS :: int where
  "NSPECIALSCRIPTS = 6"

text \<open>
  Modelled from the spec: \<open>change_endianness\<close> of \<open>bitcoin_tools.utils\<close>, not among the
  sources. The decoder's step 4 says that it reverses the byte order of the bitvector:
  the two-character groups of the hex str are put in reverse order.
\<close>

fun byte_chunks :: "string \<Rightarrow> string list" where
  "byte_chunks (a # b # cs) = [a, b] # byte_chunks cs"
| "byte_chunks cs = (if cs = [] then [] else [cs])"

definition change_endianness :: "string \<Rightarrow> string" where
  "change_endianness x = concat (rev (byte_chunks x))"

text \<open>
  Lines 161-171: the flags of the first two outputs, \<open>n\<close> and the indexes of the first
  two outputs that are unspent.
\<close>

definition decode_vout :: "int \<Rightarrow> int \<times> nat list" where
  "decode_vout code =
     (let vout = [(code OR 0x01) AND 0x02, (code OR 0x01) AND 0x04]
      in if vout ! 0 = 0 \<and> vout ! 1 = 0 then (drop_bit 3 code + 1, [])
         else (drop_bit 3 code, filter (\<lambda>i. vout ! i \<noteq> 0) [0..<length vout]))"

text \<open>
  Lines 177-182: bytes are read until \<open>n\<close> of them differ from \<open>00\<close>. A slice past the
  end of \<open>utxo\<close> is the empty string, which differs from \<open>00\<close> too. The loop returns
  its three variables.
\<close>

function bitvector_while :: "string \<Rightarrow> nat \<Rightarrow> string \<Rightarrow> nat \<Rightarrow> nat \<times> string \<times> nat" where
  "bitvector_while utxo n bitvector offset =
     (if n \<noteq> 0 then
        (let data = take 2 (drop offset utxo);
             n1 = (if data \<noteq> ''00'' then n - 1 else n)
         in bitvector_while utxo n1 (bitvector @ data) (offset + 2))
      else (n, bitvector, offset))"
  by pat_completeness auto
termination
proof (relation "measures [\<lambda>(utxo, n, bitvector, offset). n,
                           \<lambda>(utxo, n, bitvector, offset). length utxo - offset]")
  show "wf (measures [\<lambda>(utxo, n, bitvector, offset). n,
                      \<lambda>(utxo, n, bitvector, offset). length utxo - offset])" by simp
next
  fix utxo bitvector x :: string and n offset xa :: nat
  assume a: "n \<noteq> 0" "x = take 2 (drop offset utxo)" "xa = (if x \<noteq> ''00'' then n - 1 else n)"
  show "((utxo, xa, bitvector @ x, offset + 2), (utxo, n, bitvector, offset))
        \<in> measures [\<lambda>(utxo, n, bitvector, offset). n,
                     \<lambda>(utxo, n, bitvector, offset). length utxo - offset]"
  proof (cases "x = ''00''")
    case True
    then have "take 2 (drop offset utxo) \<noteq> []" using a by auto
    then have "offset < length utxo" by simp
    then show ?thesis using a True by simp
  next
    case False
    then show ?thesis using a by simp
  qed
qed

text \<open>
  \<open>format(v, '0' + str(w) + 'b')\<close>: the binary digits of \<open>v\<close>, most significant first,
  padded with zeros (after the sign) to \<open>w\<close> characters.
\<close>

fun bin_nat :: "nat \<Rightarrow> string" where
  "bin_nat n =
     (if n < 2 then [if n = 0 then CHR ''0'' else CHR ''1'']
      else bin_nat (n div 2) @ [if n mod 2 = 0 then CHR ''0'' else CHR ''1''])"

definition format_0b :: "nat \<Rightarrow> int \<Rightarrow> string" where
  "format_0b w v =
     (if v < 0
      then CHR ''-'' # replicate (w - 1 - length (bin_nat (nat (- v)))) CHR ''0'' @ bin_nat (nat (- v))
      else replicate (w - length (bin_nat (nat v))) CHR ''0'' @ bin_nat (nat v))"

text \<open>\<open>s.find(c, i)\<close>: the first position from \<open>i\<close> on that holds \<open>c\<close>, or \<open>-1\<close>.\<close>

definition py_find :: "string \<Rightarrow> char \<Rightarrow> nat \<Rightarrow> int" where
  "py_find s c i =
     (case filter (\<lambda>j. s ! j = c) [i..<length s] of [] \<Rightarrow> - 1 | j # _ \<Rightarrow> int j)"

definition extended_vout :: "string \<Rightarrow> nat list" where
  "extended_vout bin_data =
     map (\<lambda>i. i + 2) (filter (\<lambda>i. py_find bin_data CHR ''1'' i = int i) [0..<length bin_data])"

text \<open>
  Lines 175-195. The width given to \<open>format\<close> is \<open>n*8\<close> for the value \<open>n\<close> has after
  the loop.
\<close>

definition decode_bitvector :: "string \<Rightarrow> int \<Rightarrow> nat \<Rightarrow> nat list \<Rightarrow> error + (nat list \<times> nat)" where
  "decode_bitvector utxo n offset vout =
     (if n > 0 then
        (case bitvector_while utxo (nat n) [] offset of
           (n1, bitvector, offset1) \<Rightarrow>
             (case int16 (change_endianness bitvector) of
                None \<Rightarrow> Inl ValueError
              | Some v \<Rightarrow>
                  (let bin_data = rev (format_0b (n1 * 8) v)
                   in Inr (vout @ extended_vout bin_data, offset1))))
      else Inr (vout, offset))"

text \<open>
  Lines 198-223: the body of the loop over the unspent indexes (\<open>decode_out\<close>), and
  the loop (\<open>decode_outs\<close>). \<open>txout_decompress\<close> (of
  \<open>bitcoin_tools.utils\<close>, not among the sources) is the parameter \<open>decompress\<close>.
  No tag is negative (\<open>b128_decode\<close> returns no negative number), so a tag outside 0 to 5
  is at least \<open>NSPECIALSCRIPTS\<close> and the size computed from it is not negative.
\<close>

definition decode_out :: "(int \<Rightarrow> int) \<Rightarrow> string \<Rightarrow> nat \<Rightarrow> nat \<Rightarrow> error + (out \<times> nat)" where
  "decode_out decompress utxo i offset =
     (case parse_b128 utxo offset of
        Inl e \<Rightarrow> Inl e
      | Inr (data, offset1) \<Rightarrow>
     (case b128_decode data of
        Inl e \<Rightarrow> Inl e
      | Inr a \<Rightarrow>
     (case parse_b128 utxo offset1 of
        Inl e \<Rightarrow> Inl e
      | Inr (out_type_hex, offset2) \<Rightarrow>
     (case b128_decode out_type_hex of
        Inl e \<Rightarrow> Inl e
      | Inr otype \<Rightarrow>
          (let amount = decompress a;
               data_size = (if otype \<in> {0, 1} then 40
                            else if otype \<in> {2, 3, 4, 5} then 66
                            else nat ((otype - NSPECIALSCRIPTS) * 2));
               offset3 = (if otype \<in> {2, 3, 4, 5} then offset2 - 2 else offset2);
               data1 = take data_size (drop offset3 utxo);
               offset4 = offset3 + data_size
           in Inr (\<lparr>out_index = i, out_amount = amount, out_type = otype, out_data = data1\<rparr>,
                   offset4))))))"

fun decode_outs ::
  "(int \<Rightarrow> int) \<Rightarrow> string \<Rightarrow> nat list \<Rightarrow> nat \<Rightarrow> out list \<Rightarrow> error + (out list \<times> nat)" where
  "decode_outs decompress utxo [] offset outs = Inr (outs, offset)"
| "decode_outs decompress utxo (i # vout) offset outs =
     (case decode_out decompress utxo i offset of
        Inl e \<Rightarrow> Inl e
      | Inr (out, offset1) \<Rightarrow> decode_outs decompress utxo vout offset1 (outs @ [out]))"

text \<open>
  \<open>decode_utxo\<close> up to the last line before the assertion, with the cursor it has
  reached, and \<open>decode_utxo\<close> itself: the assertion of line 229 compares the cursor with
  the length of the input.
\<close>

definition decode_utxo_cursor :: "(int \<Rightarrow> int) \<Rightarrow> string \<Rightarrow> error + (utxo_entry \<times> nat)" where
  "decode_utxo_cursor decompress utxo =
     (case parse_b128 utxo 0 of
        Inl e \<Rightarrow> Inl e
      | Inr (version_hex, offset1) \<Rightarrow>
     (case b128_decode version_hex of
        Inl e \<Rightarrow> Inl e
      | Inr version \<Rightarrow>
     (case parse_b128 utxo offset1 of
        Inl e \<Rightarrow> Inl e
      | Inr (code_hex, offset2) \<Rightarrow>
     (case b128_decode code_hex of
        Inl e \<Rightarrow> Inl e
      | Inr code \<Rightarrow>
     (case decode_bitvector utxo (fst (decode_vout code)) offset2 (snd (decode_vout code)) of
        Inl e \<Rightarrow> Inl e
      | Inr (vout, offset3) \<Rightarrow>
     (case decode_outs decompress utxo vout offset3 [] of
        Inl e \<Rightarrow> Inl e
      | Inr (outs, offset4) \<Rightarrow>
     (case parse_b128 utxo offset4 of
        Inl e \<Rightarrow> Inl e
      | Inr (height_hex, offset5) \<Rightarrow>
     (case b128_decode height_hex of
        Inl e \<Rightarrow> Inl e
      | Inr height \<Rightarrow>
          Inr (\<lparr>utxo_version = version, utxo_coinbase = code AND 0x01, utxo_outs = outs,
                utxo_height = height\<rparr>, offset5)))))))))"

definition decode_utxo :: "(int \<Rightarrow> int) \<Rightarrow> string \<Rightarrow> error + utxo_entry" where
  "decode_utxo decompress utxo =
     (case decode_utxo_cursor decompress utxo of
        Inl e \<Rightarrow> Inl e
      | Inr (entry, offset) \<Rightarrow> if length utxo = offset then Inr entry else Inl AssertionError)"

section \<open>Output cost classifier (\<open>check_multisig\<close>, \<open>get_min_input_size\<close>)\<close>

text \<open>
  \<open>check_multisig\<close> (lines 361-371). \<open>range(81, 83)\<close> holds 81 and 82, \<open>range(84, 101)\<close>
  holds 84 to 100. \<open>script[-2:]\<close> is the last two characters of the script (all of it
  when it is shorter). \<open>int(script[:2], 16)\<close> is evaluated first and may raise.
\<close>

definition check_multisig :: "string \<Rightarrow> bool \<Rightarrow> error + bool" where
  "check_multisig script std =
     (let r = (if std then [81..82] else [84..100])
      in case int16 (take 2 script) of
           None \<Rightarrow> Inl ValueError
         | Some b \<Rightarrow>
             Inr (b \<in> set r \<and> take 2 (drop 2 script) \<in> {''21'', ''41''}
                  \<and> drop (length script - 2) script = ''ae''))"

text \<open>Line 442: the number of signatures that a bare multisig script requires.\<close>

definition req_sigs :: "string \<Rightarrow> error + int" where
  "req_sigs script =
     (case int16 (take 2 script) of None \<Rightarrow> Inl ValueError | Some b \<Rightarrow> Inr (b - 80))"

text \<open>
  \<open>get_min_input_size\<close> (lines 390-452). Each branch sets the pair
  \<open>(scriptSig, scriptSig_len)\<close>. \<open>int(ceil(scriptSig / float(256)))\<close> is the quotient
  rounded up, \<open>- (- scriptSig div 256)\<close>. The test \<open>out_type is 0\<close> on Python's small
  integers is the equality.
\<close>

definition get_min_input_size :: "out \<Rightarrow> int \<Rightarrow> bool \<Rightarrow> error + int" where
  "get_min_input_size out height count_p2sh =
     (let otype = out_type out;
          script = out_data out;
          prev_tx_id = 32;
          prev_out_index = 4;
          nSequence = 4;
          fixed_size = prev_tx_id + prev_out_index + nSequence
      in case
           (if otype = 0 then Inr (if height < 173480 then 138 else 106, 1)
            else if otype = 1 then Inr (if count_p2sh then (1, 1) else (- fixed_size, 0))
            else if otype \<in> {2, 3, 4, 5} then Inr (72, 1)
            else
              (case check_multisig script True of
                 Inl e \<Rightarrow> Inl e
               | Inr True \<Rightarrow>
                   (case req_sigs script of
                      Inl e \<Rightarrow> Inl e
                    | Inr rs \<Rightarrow>
                        (let scriptSig = 1 + (rs * 72)
                         in Inr (scriptSig, - (- scriptSig div 256))))
               | Inr False \<Rightarrow> Inr (- fixed_size - 1, 0)))
         of
           Inl e \<Rightarrow> Inl e
         | Inr (scriptSig, scriptSig_len) \<Rightarrow> Inr (fixed_size + (scriptSig_len + scriptSig)))"

section \<open>Fee-threshold accumulator (\<open>accumulate_dust_lm\<close>)\<close>

text \<open>
  One line of the input file, after \<open>loads\<close>: the keys \<open>dust\<close>, \<open>loss_making\<close>,
  \<open>amount\<close> and \<open>utxo_data_len\<close> are read.
\<close>

record utxo_line =
  l_dust :: int
  l_loss_making :: int
  l_amount :: int
  l_utxo_data_len :: int

text \<open>
  The six dictionaries and the three totals of lines 308-318. The keys of the
  dictionaries are \<open>str(fee_per_byte)\<close>; \<open>str\<close> is one-to-one on integers, so the key is
  the integer here.
\<close>

record acc_state =
  dust :: "int \<rightharpoonup> int"
  value_dust :: "int \<rightharpoonup> int"
  data_len_dust :: "int \<rightharpoonup> int"
  lm :: "int \<rightharpoonup> int"
  value_lm :: "int \<rightharpoonup> int"
  data_len_lm :: "int \<rightharpoonup> int"
  total_utxo :: int
  total_value :: int
  total_data_len :: int

text \<open>
  \<open>range(lo, hi, step)\<close>, which raises \<open>ValueError\<close> on a zero step.
  \<open>MIN_FEE_PER_BYTE\<close>, \<open>MAX_FEE_PER_BYTE\<close> and \<open>FEE_STEP\<close> are constants of the package
  that are not among the sources: they are parameters here.
\<close>

definition py_range :: "int \<Rightarrow> int \<Rightarrow> int \<Rightarrow> error + int list" where
  "py_range lo hi step =
     (if step = 0 then Inl ValueError
      else if step > 0 then Inr (map (\<lambda>k. lo + int k * step) [0..<nat ((hi - lo + step - 1) div step)])
      else Inr (map (\<lambda>k. lo + int k * step) [0..<nat ((lo - hi - step - 1) div (- step))]))"

text \<open>\<open>d[k] += v\<close>, which raises \<open>KeyError\<close> when the key is missing.\<close>

definition add_to :: "(int \<rightharpoonup> int) \<Rightarrow> int \<Rightarrow> int \<Rightarrow> error + (int \<rightharpoonup> int)" where
  "add_to d k v = (case d k of None \<Rightarrow> Inl KeyError | Some c \<Rightarrow> Inr (d(k \<mapsto> c + v)))"

text \<open>Lines 324-327 and 328-331, for one line and one fee rate.\<close>

definition dust_step :: "utxo_line \<Rightarrow> int \<Rightarrow> acc_state \<Rightarrow> error + acc_state" where
  "dust_step ln fee_per_byte st =
     (if fee_per_byte \<ge> l_dust ln \<and> l_dust ln \<noteq> 0 then
        (case add_to (dust st) fee_per_byte 1 of
           Inl e \<Rightarrow> Inl e
         | Inr d1 \<Rightarrow>
        (case add_to (value_dust st) fee_per_byte (l_amount ln) of
           Inl e \<Rightarrow> Inl e
         | Inr d2 \<Rightarrow>
        (case add_to (data_len_dust st) fee_per_byte (l_utxo_data_len ln) of
           Inl e \<Rightarrow> Inl e
         | Inr d3 \<Rightarrow> Inr (st\<lparr>dust := d1, value_dust := d2, data_len_dust := d3\<rparr>))))
      else Inr st)"

definition lm_step :: "utxo_line \<Rightarrow> int \<Rightarrow> acc_state \<Rightarrow> error + acc_state" where
  "lm_step ln fee_per_byte st =
     (if fee_per_byte \<ge> l_loss_making ln \<and> l_loss_making ln \<noteq> 0 then
        (case add_to (lm st) fee_per_byte 1 of
           Inl e \<Rightarrow> Inl e
         | Inr d1 \<Rightarrow>
        (case add_to (value_lm st) fee_per_byte (l_amount ln) of
           Inl e \<Rightarrow> Inl e
         | Inr d2 \<Rightarrow>
        (case add_to (data_len_lm st) fee_per_byte (l_utxo_data_len ln) of
           Inl e \<Rightarrow> Inl e
         | Inr d3 \<Rightarrow> Inr (st\<lparr>lm := d1, value_lm := d2, data_len_lm := d3\<rparr>))))
      else Inr st)"

text \<open>The loop over the fee rates (lines 323-331), for one line.\<close>

fun fee_loop :: "utxo_line \<Rightarrow> int list \<Rightarrow> acc_state \<Rightarrow> error + acc_state" where
  "fee_loop ln [] st = Inr st"
| "fee_loop ln (fee_per_byte # fees) st =
     (case dust_step ln fee_per_byte st of
        Inl e \<Rightarrow> Inl e
      | Inr st1 \<Rightarrow>
     (case lm_step ln fee_per_byte st1 of
        Inl e \<Rightarrow> Inl e
      | Inr st2 \<Rightarrow> fee_loop ln fees st2))"

text \<open>The body of the loop over the lines (lines 321-335).\<close>

definition line_step :: "int list \<Rightarrow> utxo_line \<Rightarrow> acc_state \<Rightarrow> error + acc_state" where
  "line_step fees ln st =
     (case fee_loop ln fees st of
        Inl e \<Rightarrow> Inl e
      | Inr st1 \<Rightarrow>
          Inr (st1\<lparr>total_utxo := total_utxo st1 + 1,
                   total_value := total_value st1 + l_amount ln,
                   total_data_len := total_data_len st1 + l_utxo_data_len ln\<rparr>))"

fun line_loop :: "int list \<Rightarrow> utxo_line list \<Rightarrow> acc_state \<Rightarrow> error + acc_state" where
  "line_loop fees [] st = Inr st"
| "line_loop fees (ln # lns) st =
     (case line_step fees ln st of Inl e \<Rightarrow> Inl e | Inr st1 \<Rightarrow> line_loop fees lns st1)"

text \<open>
  Lines 308-318: every dictionary starts with the value 0 at every fee rate of the
  range, the totals start at 0.
\<close>

definition zero_table :: "int list \<Rightarrow> (int \<rightharpoonup> int)" where
  "zero_table fees = map_of (map (\<lambda>fee_per_byte. (fee_per_byte, 0)) fees)"

definition init_state :: "int list \<Rightarrow> acc_state" where
  "init_state fees =
     \<lparr>dust = zero_table fees, value_dust = zero_table fees, data_len_dust = zero_table fees,
      lm = zero_table fees, value_lm = zero_table fees, data_len_lm = zero_table fees,
      total_utxo = 0, total_value = 0, total_data_len = 0\<rparr>"

text \<open>
  \<open>accumulate_dust_lm\<close> from the lines of the input file to the data that it writes.
\<close>

definition accumulate_dust_lm :: "int \<Rightarrow> int \<Rightarrow> int \<Rightarrow> utxo_line list \<Rightarrow> error + acc_state" where
  "accumulate_dust_lm min_fee max_fee fee_step lns =
     (case py_range min_fee max_fee fee_step of
        Inl e \<Rightarrow> Inl e
      | Inr fees \<Rightarrow> line_loop fees lns (init_state fees))"

section \<open>Byte strings\<close>

text \<open>
  A byte string as the list of its bytes, and the hex str that prints it, two lower-case
  characters per byte (what \<open>b128_encode\<close> does with its list \<open>tmp\<close>). A byte string is
  a well-terminated varint when it is not empty, its last byte has the bit \<open>0x80\<close> clear
  and every byte before has it set.
\<close>

definition hexlify :: "int list \<Rightarrow> string" where
  "hexlify bs = concat (map format_02x bs)"

definition well_terminated :: "int list \<Rightarrow> bool" where
  "well_terminated bs =
     (bs \<noteq> [] \<and> (\<forall>b \<in> set bs. 0 \<le> b \<and> b < 256) \<and> last bs < 128 \<and> (\<forall>b \<in> set (butlast bs). 128 \<le> b))"

text \<open>
  The accumulator of \<open>b128_decode\<close> after a run of bytes that all have the bit \<open>0x80\<close>
  set, started from \<open>a\<close>.
\<close>

definition cont_val :: "int list \<Rightarrow> int \<Rightarrow> int" where
  "cont_val p a = fold (\<lambda>b a. a * 128 + b mod 128 + 1) p a"

section \<open>Orders on the accumulator\<close>

text \<open>
  A table does not decrease when every key that it holds is still held, with a value at
  least as large. \<open>counts_le\<close> compares the counters of two states of the accumulator
  (the tables \<open>dust\<close> and \<open>lm\<close> and the total \<open>total_utxo\<close>), \<open>sums_le\<close> the sums of
  amounts and of data lengths. \<open>dust_bucket\<close> reads one dust counter in the result of
  \<open>accumulate_dust_lm\<close>.
\<close>

definition table_le :: "(int \<rightharpoonup> int) \<Rightarrow> (int \<rightharpoonup> int) \<Rightarrow> bool" where
  "table_le m m' = (\<forall>k c. m k = Some c \<longrightarrow> (\<exists>c'. m' k = Some c' \<and> c \<le> c'))"

definition counts_le :: "acc_state \<Rightarrow> acc_state \<Rightarrow> bool" where
  "counts_le st st' =
     (table_le (dust st) (dust st') \<and> table_le (lm st) (lm st') \<and> total_utxo st \<le> total_utxo st')"

definition sums_le :: "acc_state \<Rightarrow> acc_state \<Rightarrow> bool" where
  "sums_le st st' =
     (table_le (value_dust st) (value_dust st') \<and> table_le (data_len_dust st) (data_len_dust st')
      \<and> table_le (value_lm st) (value_lm st') \<and> table_le (data_len_lm st) (data_len_lm st')
      \<and> total_value st \<le> total_value st' \<and> total_data_len st \<le> total_data_len st')"

definition dust_bucket :: "int \<Rightarrow> error + acc_state \<Rightarrow> int option" where
  "dust_bucket r res = (case res of Inl e \<Rightarrow> None | Inr st \<Rightarrow> dust st r)"

section \<open>Properties of the varint codec\<close>

declare b128_decode_loop.simps [simp del] b128_encode_loop.simps [simp del]
  parse_b128_while.simps [simp del] hex_nat.simps [simp del] bitvector_while.simps [simp del]
  bin_nat.simps [simp del]

lemma and_7f: "(d::int) AND 0x7F = d mod 128"
proof -
  have m: "(0x7F::int) = mask 7" by (simp add: mask_eq_exp_minus_1)
  show ?thesis by (simp add: m take_bit_eq_mask [symmetric] take_bit_eq_mod)
qed

lemma or_7: "push_bit 7 (a::int) OR (d AND 0x7F) = a * 128 + d mod 128"
proof -
  have m: "(0x7F::int) = mask 7" by (simp add: mask_eq_exp_minus_1)
  have "push_bit 7 a OR take_bit 7 d = push_bit 7 a + take_bit 7 d"
    by (rule disjunctive_add [symmetric]) (auto simp: bit_push_bit_iff bit_take_bit_iff)
  then show ?thesis
    by (simp add: m take_bit_eq_mask [symmetric] take_bit_eq_mod push_bit_eq_mult)
qed

lemma odd_div_128: "odd ((d::int) div 128) = (128 \<le> d mod 256)"
proof -
  have "d mod 256 = 128 * ((d div 128) mod 2) + d mod 128"
    using zmod_zmult2_eq [of 2 d 128] by simp
  moreover have "0 \<le> d mod 128" "d mod 128 < 128" by simp_all
  moreover have "(d div 128) mod 2 = 0 \<or> (d div 128) mod 2 = 1" by presburger
  ultimately show ?thesis by (auto simp: odd_iff_mod_2_eq_one)
qed

lemma and_80: "((d::int) AND 0x80 \<noteq> 0) = (128 \<le> d mod 256)"
proof -
  have "(d AND 0x80 = 0) = (\<not> bit d 7)"
    using and_exp_eq_0_iff_not_bit [of d 7] by simp
  then show ?thesis by (simp add: odd_div_128 bit_iff_odd_drop_bit drop_bit_eq_div)
qed

lemma or_80: "0 \<le> d \<Longrightarrow> d < 128 \<Longrightarrow> (d::int) OR 0x80 = d + 128"
proof -
  assume a: "0 \<le> d" "d < 128"
  have "d AND 0x80 = 0" using and_80 [of d] a by simp
  then show ?thesis using plus_and_or [of d "0x80"] by simp
qed

lemma lt16_cases: "(k::nat) < 16 \<Longrightarrow> k \<in> {0,1,2,3,4,5,6,7,8,9,10,11,12,13,14,15}"
  by simp arith

lemma digit_val_hex_digit: "k < 16 \<Longrightarrow> digit_val (hex_digit k) = Some (int k)"
  by (drule lt16_cases) (auto simp: hex_digit_def digit_val_def)

lemma format_02x_byte:
  assumes "0 \<le> b" "b < 256"
  shows "format_02x b = [hex_digit (nat b div 16), hex_digit (nat b mod 16)]"
proof -
  have "nat b div 16 < 16" using assms by auto
  then show ?thesis
    using assms by (auto simp: format_02x_def Let_def hex_digit_def hex_nat.simps [of "nat b"] hex_nat.simps [of "nat b div 16"])
qed

lemma length_format_02x: "0 \<le> b \<Longrightarrow> b < 256 \<Longrightarrow> length (format_02x b) = 2"
  by (simp add: format_02x_byte)

lemma int16_format_02x:
  assumes "0 \<le> b" "b < 256"
  shows "int16 (format_02x b) = Some b"
proof -
  have "nat b div 16 < 16" "nat b mod 16 < 16" using assms by auto
  moreover have "16 * int (nat b div 16) + int (nat b mod 16) = b"
    using assms by (simp add: zdiv_int zmod_int)
  ultimately show ?thesis
    using assms by (simp add: format_02x_byte int16_def digit_val_hex_digit)
qed

lemma b128_decode_loop_shift:
  "b128_decode_loop data n (i + k) = b128_decode_loop (drop (2 * k) data) n i"
proof (induction "drop (2 * k) data" n i rule: b128_decode_loop.induct)
  case (1 n i)
  have e: "take 2 (drop (2 * (i + k)) data) = take 2 (drop (2 * i) (drop (2 * k) data))"
    by (simp add: add.commute distrib_left)
  show ?case
    apply (subst b128_decode_loop.simps)
    apply (subst (2) b128_decode_loop.simps)
    using 1 by (auto simp: e Let_def split: option.splits)
qed

text \<open>One step of the decoder on a byte printed by \<open>format_02x\<close>.\<close>

lemma b128_decode_loop_byte:
  assumes "0 \<le> b" "b < 256"
  shows "b128_decode_loop (format_02x b @ rest) n 0 =
           (if 128 \<le> b then b128_decode_loop rest (n * 128 + b mod 128 + 1) 0
            else Inr (n * 128 + b))"
proof -
  have l: "length (format_02x b) = 2" using assms by (rule length_format_02x)
  have s: "b128_decode_loop (format_02x b @ rest) m (0 + 1) = b128_decode_loop rest m 0" for m
    by (subst b128_decode_loop_shift) (simp add: l)
  have m: "b mod 256 = b" using assms by simp
  show ?thesis
    apply (subst b128_decode_loop.simps)
    using assms s by (simp add: l int16_format_02x or_7 and_80 m Let_def)
qed

lemma b128_encode_loop_decode:
  assumes "length tmp = l" "0 \<le> n" "\<forall>b \<in> set tmp. 0 \<le> b \<and> b < 256"
  shows "b128_decode_loop (hexlify (rev (b128_encode_loop n l tmp)) @ s) 0 0 =
           (if l = 0 then Inr n else b128_decode_loop (hexlify (rev tmp) @ s) (n + 1) 0)"
  using assms
proof (induction n l tmp rule: b128_encode_loop.induct)
  case (1 n l tmp)
  define b where "b = (if l \<noteq> 0 then (n AND 0x7F) OR 0x80 else n AND 0x7F)"
  have tmp2: "(if l \<noteq> 0 then (tmp @ [n AND 0x7F])[l := ((tmp @ [n AND 0x7F]) ! l) OR 0x80]
               else tmp @ [n AND 0x7F]) = tmp @ [b]"
    using "1.prems"(1) by (auto simp: b_def)
  have b7: "0 \<le> n AND 0x7F" "n AND 0x7F < 128" by (simp_all add: and_7f)
  have brange: "0 \<le> b" "b < 256" using b7 by (auto simp: b_def or_80)
  have bmod: "b mod 128 = n mod 128" using b7 by (auto simp: b_def or_80 and_7f)
  have bcont: "(128 \<le> b) = (l \<noteq> 0)"
  proof (cases "l = 0")
    case True
    then have "b = n AND 0x7F" by (simp add: b_def)
    then show ?thesis using b7 True by linarith
  next
    case False
    then have "b = (n AND 0x7F) + 128" using b7 by (simp add: b_def or_80)
    then show ?thesis using b7 False by linarith
  qed
  show ?case
  proof (cases "n \<le> 0x7F")
    case True
    then have e: "b128_encode_loop n l tmp = tmp @ [b]"
      by (subst b128_encode_loop.simps, unfold Let_def tmp2) simp
    have "n mod 128 = n" using True "1.prems"(2) by simp
    then show ?thesis
      using brange bmod bcont True "1.prems"(2) b7
      by (auto simp: e hexlify_def b128_decode_loop_byte b_def and_7f)
  next
    case False
    then have e: "b128_encode_loop n l tmp = b128_encode_loop (drop_bit 7 n - 1) (l + 1) (tmp @ [b])"
      by (subst b128_encode_loop.simps, unfold Let_def tmp2) simp
    have p: "0 \<le> drop_bit 7 n - 1" using False by (simp add: drop_bit_eq_div)
    have ih: "b128_decode_loop (hexlify (rev (b128_encode_loop (drop_bit 7 n - 1) (l + 1) (tmp @ [b]))) @ s) 0 0 =
           b128_decode_loop (hexlify (rev (tmp @ [b])) @ s) (drop_bit 7 n - 1 + 1) 0"
      using "1.IH" [OF refl refl False] "1.prems" p brange tmp2 by auto
    have v: "drop_bit 7 n * 128 + n mod 128 = n" by (simp add: drop_bit_eq_div)
    have "b128_decode_loop (hexlify (rev (b128_encode_loop n l tmp)) @ s) 0 0 =
            b128_decode_loop (hexlify (rev (tmp @ [b])) @ s) (drop_bit 7 n) 0"
      unfolding e ih by simp
    also have "\<dots> = b128_decode_loop (format_02x b @ (hexlify (rev tmp) @ s)) (drop_bit 7 n) 0"
      by (simp add: hexlify_def)
    also have "\<dots> = (if 128 \<le> b then b128_decode_loop (hexlify (rev tmp) @ s) (n + 1) 0 else Inr n)"
    proof (cases "128 \<le> b")
      case True
      then show ?thesis
        unfolding b128_decode_loop_byte [OF brange] bmod v by simp
    next
      case False
      then have "b mod 128 = b" using brange by simp
      then have "drop_bit 7 n * 128 + b = n" using v bmod by simp
      then show ?thesis
        unfolding b128_decode_loop_byte [OF brange] using False by simp
    qed
    finally show ?thesis using bcont by simp
  qed
qed

lemma b128_roundtrip_suffix: "0 \<le> n \<Longrightarrow> b128_decode (b128_encode n @ s) = Inr n"
  using b128_encode_loop_decode [of "[]" 0 n s]
  by (simp add: b128_decode_def b128_encode_def hexlify_def)

text \<open>
  Claim C1. Decoding the encoding of a non-negative integer gives the integer back:
  \<open>b128_decode(b128_encode(n)) == n\<close>.
\<close>

theorem b128_roundtrip: "0 \<le> n \<Longrightarrow> b128_decode (b128_encode n) = Inr n"
  using b128_roundtrip_suffix [of n "[]"] by simp

theorem b128_roundtrip_witness:
  "(0::int) \<le> 4294967296 \<and> b128_decode (b128_encode 4294967296) = Inr 4294967296"
  using b128_roundtrip [of 4294967296] by simp

text \<open>
  Claim C10. \<open>b128_decode\<close> stops at the first byte whose bit \<open>0x80\<close> is clear: whatever
  string \<open>s\<close> follows the encoding of a non-negative integer \<open>n\<close>,
  \<open>b128_decode(b128_encode(n) + s) == n\<close>, and no error is raised.
\<close>

theorem b128_decode_ignores_trailing: "0 \<le> n \<Longrightarrow> b128_decode (b128_encode n @ s) = Inr n"
  by (rule b128_roundtrip_suffix)

theorem b128_decode_ignores_trailing_witness:
  "(0::int) \<le> 255 \<and> b128_decode (b128_encode 255 @ ''zz0'') = Inr 255"
  using b128_decode_ignores_trailing [of 255 "''zz0''"] by simp

lemma cont_val_simps [simp]:
  "cont_val [] a = a"
  "cont_val (b # p) a = cont_val p (a * 128 + b mod 128 + 1)"
  "cont_val (p @ [b]) a = cont_val p a * 128 + b mod 128 + 1"
  by (simp_all add: cont_val_def)

lemma cont_val_nonneg: "0 \<le> a \<Longrightarrow> 0 \<le> cont_val p a"
  by (induction p arbitrary: a) simp_all

lemma b128_decode_loop_cont:
  "\<forall>b \<in> set p. 128 \<le> b \<and> b < 256 \<Longrightarrow>
   b128_decode_loop (hexlify p @ rest) a 0 = b128_decode_loop rest (cont_val p a) 0"
proof (induction p arbitrary: a)
  case Nil
  then show ?case by (simp add: hexlify_def)
next
  case (Cons b p)
  then have r: "0 \<le> b" "b < 256" "128 \<le> b" by auto
  have "b128_decode_loop (hexlify (b # p) @ rest) a 0 =
          b128_decode_loop (format_02x b @ (hexlify p @ rest)) a 0"
    by (simp add: hexlify_def)
  also have "\<dots> = b128_decode_loop (hexlify p @ rest) (a * 128 + b mod 128 + 1) 0"
    unfolding b128_decode_loop_byte [OF r(1,2)] using r(3) by simp
  also have "\<dots> = b128_decode_loop rest (cont_val (b # p) a) 0"
    using Cons by simp
  finally show ?case .
qed

lemma b128_decode_well_terminated:
  assumes "well_terminated bs"
  shows "b128_decode (hexlify bs) = Inr (cont_val (butlast bs) 0 * 128 + last bs)"
proof -
  have bs: "bs = butlast bs @ [last bs]" using assms by (simp add: well_terminated_def)
  have c: "\<forall>b \<in> set (butlast bs). 128 \<le> b \<and> b < 256"
    using assms by (auto simp: well_terminated_def dest: in_set_butlastD)
  have l: "0 \<le> last bs" "last bs < 256" "\<not> 128 \<le> last bs"
    using assms by (auto simp: well_terminated_def)
  have "hexlify bs = hexlify (butlast bs) @ (format_02x (last bs) @ [])"
    by (subst bs) (simp add: hexlify_def)
  then have "b128_decode (hexlify bs) =
      b128_decode_loop (format_02x (last bs) @ []) (cont_val (butlast bs) 0) 0"
    by (simp only: b128_decode_def b128_decode_loop_cont [OF c])
  also have "\<dots> = Inr (cont_val (butlast bs) 0 * 128 + last bs)"
    unfolding b128_decode_loop_byte [OF l(1,2)] using l(3) by simp
  finally show ?thesis .
qed

lemma div128: "0 \<le> b \<Longrightarrow> b < 128 \<Longrightarrow> (a * 128 + b) div 128 = (a::int)"
  by simp

lemma mod128: "0 \<le> b \<Longrightarrow> b < 128 \<Longrightarrow> (a * 128 + b) mod 128 = (b::int)"
  by simp

lemma mod128_cont: "128 \<le> (b::int) \<Longrightarrow> b < 256 \<Longrightarrow> b mod 128 = b - 128"
  using mod128 [of "b - 128" 1] by simp

lemma split128:
  assumes "(a::int) * 128 + b = c * 128 + d" "0 \<le> b" "b < 128" "0 \<le> d" "d < 128"
  shows "a = c \<and> b = d"
proof -
  have "(a * 128 + b) div 128 = (c * 128 + d) div 128" using assms(1) by simp
  then have "a = c" using assms by (simp only: div128)
  then show ?thesis using assms(1) by simp
qed

lemma cont_val_inj:
  "\<forall>b \<in> set p. 128 \<le> b \<and> b < 256 \<Longrightarrow> \<forall>b \<in> set q. 128 \<le> b \<and> b < 256 \<Longrightarrow>
   cont_val p 0 = cont_val q 0 \<Longrightarrow> p = q"
proof (induction p arbitrary: q rule: rev_induct)
  case Nil
  show ?case
  proof (cases q rule: rev_cases)
    case Nil
    then show ?thesis by simp
  next
    case (snoc q' b)
    have "0 \<le> cont_val q' 0" by (rule cont_val_nonneg) simp
    moreover have "0 \<le> b mod 128" by simp
    ultimately have "0 < cont_val q 0" unfolding snoc by simp
    then show ?thesis using Nil by simp
  qed
next
  case (snoc b p)
  show ?case
  proof (cases q rule: rev_cases)
    case Nil
    have "0 \<le> cont_val p 0" by (rule cont_val_nonneg) simp
    moreover have "0 \<le> b mod 128" by simp
    ultimately have "0 < cont_val (p @ [b]) 0" by simp
    then show ?thesis using snoc.prems Nil by simp
  next
    case (snoc q' c)
    have rb: "128 \<le> b" "b < 256" and rc: "128 \<le> c" "c < 256"
      using snoc.prems snoc by auto
    have mb: "b mod 128 = b - 128" and mc: "c mod 128 = c - 128"
      using rb rc by (simp_all add: mod128_cont)
    have e: "cont_val p 0 * 128 + (b - 128) = cont_val q' 0 * 128 + (c - 128)"
      using snoc.prems(3) unfolding snoc by (simp add: mb mc)
    have "cont_val p 0 = cont_val q' 0 \<and> b - 128 = c - 128"
      using e rb rc by (intro split128) simp_all
    then have "cont_val p 0 = cont_val q' 0 \<and> b = c" by simp
    moreover have "\<forall>b \<in> set p. 128 \<le> b \<and> b < 256" "\<forall>b \<in> set q'. 128 \<le> b \<and> b < 256"
      using snoc.prems snoc by auto
    ultimately show ?thesis using snoc.IH [of q'] snoc by simp
  qed
qed

lemma well_terminated_inj:
  assumes "well_terminated bs1" "well_terminated bs2"
    and "b128_decode (hexlify bs1) = b128_decode (hexlify bs2)"
  shows "bs1 = bs2"
proof -
  have e: "cont_val (butlast bs1) 0 * 128 + last bs1 = cont_val (butlast bs2) 0 * 128 + last bs2"
    using assms by (simp add: b128_decode_well_terminated)
  have r: "0 \<le> last bs1" "last bs1 < 128" "0 \<le> last bs2" "last bs2 < 128"
    using assms by (auto simp: well_terminated_def)
  have "cont_val (butlast bs1) 0 = cont_val (butlast bs2) 0 \<and> last bs1 = last bs2"
    using e r by (intro split128) simp_all
  moreover have "\<forall>b \<in> set (butlast bs1). 128 \<le> b \<and> b < 256" "\<forall>b \<in> set (butlast bs2). 128 \<le> b \<and> b < 256"
    using assms by (auto simp: well_terminated_def dest: in_set_butlastD)
  ultimately have "butlast bs1 = butlast bs2 \<and> last bs1 = last bs2"
    using cont_val_inj by blast
  moreover have "bs1 = butlast bs1 @ [last bs1]" "bs2 = butlast bs2 @ [last bs2]"
    using assms by (simp_all add: well_terminated_def)
  ultimately show ?thesis by metis
qed

lemma b128_encode_loop_shape:
  assumes "length tmp = l" "0 \<le> n"
  shows "\<exists>rest. b128_encode_loop n l tmp =
           tmp @ (if l \<noteq> 0 then (n AND 0x7F) OR 0x80 else n AND 0x7F) # rest
         \<and> (\<forall>b \<in> set rest. 128 \<le> b \<and> b < 256)"
  using assms
proof (induction n l tmp rule: b128_encode_loop.induct)
  case (1 n l tmp)
  define b where "b = (if l \<noteq> 0 then (n AND 0x7F) OR 0x80 else n AND 0x7F)"
  have tmp2: "(if l \<noteq> 0 then (tmp @ [n AND 0x7F])[l := ((tmp @ [n AND 0x7F]) ! l) OR 0x80]
               else tmp @ [n AND 0x7F]) = tmp @ [b]"
    using "1.prems"(1) by (auto simp: b_def)
  show ?case
  proof (cases "n \<le> 0x7F")
    case True
    then have e: "b128_encode_loop n l tmp = tmp @ [b]"
      by (subst b128_encode_loop.simps, unfold Let_def tmp2) simp
    show ?thesis unfolding e b_def [symmetric] by simp
  next
    case False
    then have e: "b128_encode_loop n l tmp = b128_encode_loop (drop_bit 7 n - 1) (l + 1) (tmp @ [b])"
      by (subst b128_encode_loop.simps, unfold Let_def tmp2) simp
    have p: "0 \<le> drop_bit 7 n - 1" using False by (simp add: drop_bit_eq_div)
    define m where "m = drop_bit 7 n - 1"
    have m7: "0 \<le> m AND 0x7F" "m AND 0x7F < 128" by (simp_all add: and_7f)
    obtain rest where r: "b128_encode_loop m (l + 1) (tmp @ [b]) =
        (tmp @ [b]) @ ((m AND 0x7F) OR 0x80) # rest" "\<forall>b \<in> set rest. 128 \<le> b \<and> b < 256"
      using "1.IH" [OF refl refl False] "1.prems" p tmp2 unfolding m_def by auto
    have "128 \<le> (m AND 0x7F) OR 0x80 \<and> (m AND 0x7F) OR 0x80 < 256"
      using m7 by (simp add: or_80)
    then show ?thesis
      unfolding e b_def [symmetric] m_def [symmetric] using r by auto
  qed
qed

lemma b128_encode_well_terminated:
  assumes "0 \<le> n"
  shows "well_terminated (rev (b128_encode_loop n 0 []))"
proof -
  obtain rest where r: "b128_encode_loop n 0 [] = (n AND 0x7F) # rest"
    "\<forall>b \<in> set rest. 128 \<le> b \<and> b < 256"
    using b128_encode_loop_shape [of "[]" 0 n] assms by auto
  have "0 \<le> n AND 0x7F" "n AND 0x7F < 128" by (simp_all add: and_7f)
  then show ?thesis using r by (auto simp: well_terminated_def)
qed

text \<open>
  Claim C7. For every non-negative \<open>n\<close>, \<open>b128_encode n\<close> prints a byte string whose
  last byte has the bit \<open>0x80\<close> clear and whose other bytes have it set, and it is the
  only such byte string that \<open>b128_decode\<close> maps to \<open>n\<close>; two byte strings of that
  shape that decode to the same value are equal. (Byte strings are compared, not their
  hexadecimal spellings: \<open>int(s, 16)\<close> reads upper-case digits as well.)
\<close>

theorem b128_canonical:
  "(0 \<le> n \<longrightarrow>
      (\<exists>bs. b128_encode n = hexlify bs \<and> well_terminated bs
            \<and> (\<forall>bs'. well_terminated bs' \<and> b128_decode (hexlify bs') = Inr n \<longrightarrow> bs' = bs)))
   \<and> (\<forall>bs1 bs2. well_terminated bs1 \<and> well_terminated bs2
         \<and> b128_decode (hexlify bs1) = b128_decode (hexlify bs2) \<longrightarrow> bs1 = bs2)"
proof (intro conjI impI allI)
  assume n: "0 \<le> n"
  define bs where "bs = rev (b128_encode_loop n 0 [])"
  have e: "b128_encode n = hexlify bs" by (simp add: b128_encode_def hexlify_def bs_def)
  have w: "well_terminated bs" unfolding bs_def using n by (rule b128_encode_well_terminated)
  have d: "b128_decode (hexlify bs) = Inr n"
    using b128_roundtrip_suffix [OF n, of "[]"] e by simp
  have "\<forall>bs'. well_terminated bs' \<and> b128_decode (hexlify bs') = Inr n \<longrightarrow> bs' = bs"
    using well_terminated_inj w d by metis
  then show "\<exists>bs. b128_encode n = hexlify bs \<and> well_terminated bs
            \<and> (\<forall>bs'. well_terminated bs' \<and> b128_decode (hexlify bs') = Inr n \<longrightarrow> bs' = bs)"
    using e w by blast
next
  fix bs1 bs2
  assume "well_terminated bs1 \<and> well_terminated bs2
         \<and> b128_decode (hexlify bs1) = b128_decode (hexlify bs2)"
  then show "bs1 = bs2" using well_terminated_inj by blast
qed


theorem b128_canonical_witness:
  "(0::int) \<le> 300 \<and> well_terminated [129, 44] \<and> b128_decode (hexlify [129, 44]) = Inr 300
   \<and> b128_encode 300 = hexlify [129, 44]"
proof -
  have w: "well_terminated [129, 44]" by (simp add: well_terminated_def)
  have d: "b128_decode (hexlify [129, 44]) = Inr 300" by code_simp
  obtain bs where bs: "b128_encode 300 = hexlify bs"
    "\<forall>bs'. well_terminated bs' \<and> b128_decode (hexlify bs') = Inr 300 \<longrightarrow> bs' = bs"
    using b128_canonical [of 300] by auto
  have "[129, 44] = bs" using bs(2) w d by blast
  then show ?thesis using w d bs(1) by simp
qed

section \<open>Properties of the record decoder\<close>

lemma digit_val_nonneg: "digit_val c = Some d \<Longrightarrow> 0 \<le> d"
  by (auto simp: digit_val_def Let_def split: if_splits)

lemma int16_acc_nonneg: "int16_acc a s = Some v \<Longrightarrow> 0 \<le> a \<Longrightarrow> 0 \<le> v"
proof (induction s arbitrary: a)
  case Nil
  then show ?case by simp
next
  case (Cons c s)
  then obtain d where d: "digit_val c = Some d" "int16_acc (16 * a + d) s = Some v"
    by (auto split: option.splits)
  have "0 \<le> 16 * a + d" using digit_val_nonneg [OF d(1)] Cons.prems(2) by simp
  then show ?case using Cons.IH [OF d(2)] by simp
qed

lemma int16_nonneg: "int16 s = Some v \<Longrightarrow> 0 \<le> v"
  by (auto simp: int16_def split: if_splits dest: int16_acc_nonneg)

lemma bitvector_while_n: "bitvector_while utxo n bv off = (n1, bv1, off1) \<Longrightarrow> n1 = 0"
proof (induction utxo n bv off rule: bitvector_while.induct)
  case (1 utxo n bitvector offset)
  show ?case
  proof (cases "n = 0")
    case True
    then show ?thesis using "1.prems" by (subst (asm) bitvector_while.simps) simp
  next
    case False
    then show ?thesis
      using "1.prems" "1.IH" [OF False refl refl]
      by (subst (asm) bitvector_while.simps) (simp add: Let_def)
  qed
qed

lemma rev_bin_nat:
  "rev (bin_nat m) =
     (if m < 2 then [if m = 0 then CHR ''0'' else CHR ''1'']
      else (if m mod 2 = 0 then CHR ''0'' else CHR ''1'') # rev (bin_nat (m div 2)))"
  by (subst bin_nat.simps) simp

lemma bin_nat_bit:
  "(i < length (bin_nat m) \<longrightarrow> rev (bin_nat m) ! i = (if bit m i then CHR ''1'' else CHR ''0''))
   \<and> (length (bin_nat m) \<le> i \<longrightarrow> \<not> bit m i)"
proof (induction m arbitrary: i rule: bin_nat.induct)
  case (1 m)
  show ?case
  proof (cases "m < 2")
    case True
    then have b: "bin_nat m = [if m = 0 then CHR ''0'' else CHR ''1'']"
      by (subst bin_nat.simps) simp
    from True have "m = 0 \<or> m = Suc 0" by auto
    then show ?thesis
    proof
      assume "m = 0"
      then show ?thesis using b by simp
    next
      assume "m = Suc 0"
      then show ?thesis using b by (cases i) (simp_all add: bit_Suc bit_0)
    qed
  next
    case False
    have l: "length (bin_nat m) = Suc (length (bin_nat (m div 2)))"
      using False by (subst bin_nat.simps) simp
    show ?thesis
    proof (cases i)
      case 0
      then show ?thesis
        using False by (subst rev_bin_nat) (auto simp: l bit_0 odd_iff_mod_2_eq_one)
    next
      case (Suc j)
      then show ?thesis
        using False "1.IH" [OF False, of j]
        by (subst rev_bin_nat) (auto simp: l bit_Suc)
    qed
  qed
qed

lemma py_find_eq: "(py_find s c i = int i) = (i < length s \<and> s ! i = c)"
proof (cases "i < length s")
  case True
  then have u: "[i..<length s] = i # [Suc i..<length s]" by (simp add: upt_conv_Cons)
  show ?thesis
  proof (cases "s ! i = c")
    case True
    then show ?thesis using \<open>i < length s\<close> by (simp add: py_find_def u)
  next
    case False
    have "\<forall>j \<in> set (filter (\<lambda>j. s ! j = c) [Suc i..<length s]). i < j" by auto
    then have "(case filter (\<lambda>j. s ! j = c) [Suc i..<length s] of [] \<Rightarrow> - 1 | j # _ \<Rightarrow> int j) \<noteq> int i"
      by (cases "filter (\<lambda>j. s ! j = c) [Suc i..<length s]") auto
    then show ?thesis using False by (simp add: py_find_def u)
  qed
next
  case False
  then show ?thesis by (simp add: py_find_def)
qed

lemma extended_vout_bits:
  "extended_vout (rev (bin_nat m)) = map (\<lambda>i. i + 2) (filter (bit m) [0..<length (bin_nat m)])"
proof -
  have "filter (\<lambda>i. py_find (rev (bin_nat m)) CHR ''1'' i = int i) [0..<length (rev (bin_nat m))]
        = filter (bit m) [0..<length (bin_nat m)]"
    using bin_nat_bit [of _ m] by (auto simp: py_find_eq intro!: filter_cong split: if_splits)
  then show ?thesis by (simp add: extended_vout_def)
qed

lemma extended_vout_set: "(i + 2 \<in> set (extended_vout (rev (bin_nat m)))) = bit m i"
proof -
  have "bit m i \<Longrightarrow> i < length (bin_nat m)" using bin_nat_bit [of i m] by auto
  then show ?thesis by (auto simp: extended_vout_bits)
qed



lemma decode_bitvector_bits:
  assumes "0 < n" "bitvector_while utxo (nat n) [] offset = (n1, bv, offset1)"
    "int16 (change_endianness bv) = Some v"
  shows "decode_bitvector utxo n offset vout = Inr (vout @ extended_vout (rev (bin_nat (nat v))), offset1)"
proof -
  have n1: "n1 = 0" using assms(2) by (rule bitvector_while_n)
  have v: "0 \<le> v" using assms(3) by (rule int16_nonneg)
  show ?thesis
    using assms v by (simp add: decode_bitvector_def n1 format_0b_def)
qed

lemma decode_out_index: "decode_out decompress utxo i offset = Inr (out, offset1) \<Longrightarrow> out_index out = i"
  by (auto simp: decode_out_def Let_def split: sum.splits)

lemma decode_outs_index:
  "decode_outs decompress utxo vout offset acc = Inr (outs, offset1) \<Longrightarrow>
   map out_index outs = map out_index acc @ vout"
proof (induction vout arbitrary: offset acc)
  case Nil
  then show ?case by simp
next
  case (Cons i vout)
  then obtain out off where o: "decode_out decompress utxo i offset = Inr (out, off)"
    "decode_outs decompress utxo vout off (acc @ [out]) = Inr (outs, offset1)"
    by (auto split: sum.splits)
  show ?case using Cons.IH [OF o(2)] decode_out_index [OF o(1)] by simp
qed

lemma decode_utxo_cursor_Inr:
  assumes "decode_utxo_cursor decompress utxo = Inr (entry, offset5)"
  shows "\<exists>version_hex offset1 version code_hex offset2 code vout offset3 outs offset4 height_hex height.
           parse_b128 utxo 0 = Inr (version_hex, offset1)
         \<and> b128_decode version_hex = Inr version
         \<and> parse_b128 utxo offset1 = Inr (code_hex, offset2)
         \<and> b128_decode code_hex = Inr code
         \<and> decode_bitvector utxo (fst (decode_vout code)) offset2 (snd (decode_vout code)) = Inr (vout, offset3)
         \<and> decode_outs decompress utxo vout offset3 [] = Inr (outs, offset4)
         \<and> parse_b128 utxo offset4 = Inr (height_hex, offset5)
         \<and> b128_decode height_hex = Inr height
         \<and> entry = \<lparr>utxo_version = version, utxo_coinbase = code AND 0x01, utxo_outs = outs,
                     utxo_height = height\<rparr>"
  using assms unfolding decode_utxo_cursor_def
  by (simp split: sum.splits prod.splits)

lemma decode_vout_small: "set (snd (decode_vout code)) \<subseteq> {0, 1}"
  by (auto simp: decode_vout_def Let_def)

text \<open>
  A record used as an example below: version 1, code 0 (not a coinbase, the outputs 0
  and 1 spent), the bitvector \<open>0040\<close> (bit 14 set), one output of type 0 with the
  compressed amount 5, and the height 2048.
\<close>

lemma ex_bin_nat: "bin_nat 16384 = ''100000000000000''"
  by (simp add: bin_nat.simps)

lemma ex_extended_vout: "extended_vout ''000000000000001'' = [16]"
  by code_simp

lemma ex_version: "parse_b128 ''010000400500abababababababababababababababababababab8f00'' 0 = Inr (''01'', 2)"
  by code_simp

lemma ex_code: "parse_b128 ''010000400500abababababababababababababababababababab8f00'' 2 = Inr (''00'', 4)"
  by code_simp

lemma ex_decode_00: "b128_decode ''00'' = Inr 0"
  by code_simp

lemma ex_decode_01: "b128_decode ''01'' = Inr 1"
  by code_simp

lemma ex_decode_vout: "decode_vout 0 = (1, [])"
  by code_simp

lemma ex_bitvector_while: "bitvector_while ''010000400500abababababababababababababababababababab8f00'' (nat 1) [] 4 = (0, ''0040'', 8)"
  by code_simp

lemma ex_bitvector_value: "int16 (change_endianness ''0040'') = Some 16384"
  by code_simp

lemma ex_decode_bitvector: "decode_bitvector ''010000400500abababababababababababababababababababab8f00'' 1 4 [] = Inr ([16], 8)"
  using ex_bitvector_while
  by (simp add: decode_bitvector_def ex_bitvector_value format_0b_def ex_bin_nat ex_extended_vout)

lemma ex_decode_out:
  "decode_out id ''010000400500abababababababababababababababababababab8f00'' 16 8 =
     Inr (\<lparr>out_index = 16, out_amount = 5, out_type = 0, out_data = ''abababababababababababababababababababab''\<rparr>, 52)"
  by code_simp

lemma ex_height: "parse_b128 ''010000400500abababababababababababababababababababab8f00'' 52 = Inr (''8f00'', 56)"
  by code_simp

lemma ex_decode_8f00: "b128_decode ''8f00'' = Inr 2048"
  by code_simp

lemma ex_decode_utxo_cursor:
  "decode_utxo_cursor id ''010000400500abababababababababababababababababababab8f00'' =
     Inr (\<lparr>utxo_version = 1, utxo_coinbase = 0, utxo_outs = [\<lparr>out_index = 16, out_amount = 5, out_type = 0, out_data = ''abababababababababababababababababababab''\<rparr>], utxo_height = 2048\<rparr>, 56)"
  by (simp add: decode_utxo_cursor_def ex_version ex_code ex_decode_00 ex_decode_01 ex_decode_vout
        ex_decode_bitvector ex_decode_out ex_height ex_decode_8f00)

text \<open>
  Claim C5. In \<open>decode_utxo\<close>, with \<open>v\<close> the integer read from the bitvector once its
  bytes are put in reverse order, the indexes of the decoded outputs are those of the
  first two outputs that are unspent, followed by \<open>i + 2\<close> for every position \<open>i\<close>,
  in ascending order, at which \<open>v\<close> has a set bit (bit 0 is the least significant one):
  a set bit at position \<open>i\<close> gives the index \<open>i + 2\<close>, and no other index from 2 on
  appears. A bitvector with bit 14 set gives the index 16.
\<close>

theorem bitvector_index_mapping:
  assumes "decode_utxo_cursor decompress utxo = Inr (entry, offset5)"
    and "parse_b128 utxo 0 = Inr (version_hex, offset1)"
    and "parse_b128 utxo offset1 = Inr (code_hex, offset2)"
    and "b128_decode code_hex = Inr code"
    and "0 < fst (decode_vout code)"
    and "bitvector_while utxo (nat (fst (decode_vout code))) [] offset2 = (n1, bitvector, offset3)"
    and "int16 (change_endianness bitvector) = Some v"
  shows "map out_index (utxo_outs entry)
           = snd (decode_vout code) @ map (\<lambda>i. i + 2) (filter (bit v) [0..<length (bin_nat (nat v))])
         \<and> (\<forall>i. bit v i = (i + 2 \<in> set (map out_index (utxo_outs entry))))"
proof -
  obtain vout o3 outs o4 where d:
    "decode_bitvector utxo (fst (decode_vout code)) offset2 (snd (decode_vout code)) = Inr (vout, o3)"
    "decode_outs decompress utxo vout o3 [] = Inr (outs, o4)"
    "utxo_outs entry = outs"
    using decode_utxo_cursor_Inr [OF assms(1)] assms(2,3,4) by auto
  have v: "0 \<le> v" using assms(7) by (rule int16_nonneg)
  have b: "bit (nat v) i = bit v i" for i using v by (simp add: bit_nat_iff)
  have vout: "vout = snd (decode_vout code) @ extended_vout (rev (bin_nat (nat v)))"
    using decode_bitvector_bits [OF assms(5,6,7)] d(1) by simp
  have idx: "map out_index (utxo_outs entry) = vout"
    using decode_outs_index [OF d(2)] d(3) by simp
  have e: "extended_vout (rev (bin_nat (nat v))) = map (\<lambda>i. i + 2) (filter (bit v) [0..<length (bin_nat (nat v))])"
  proof -
    have "bit (nat v) = bit v" by (rule ext) (rule b)
    then show ?thesis by (simp add: extended_vout_bits)
  qed
  have s: "i + 2 \<notin> set (snd (decode_vout code))" for i
    using decode_vout_small [of code] by auto
  have m: "bit v i = (i + 2 \<in> set vout)" for i
  proof -
    have "(i + 2 \<in> set vout) = (i + 2 \<in> set (extended_vout (rev (bin_nat (nat v)))))"
      unfolding vout using s [of i] by simp
    also have "\<dots> = bit (nat v) i" by (rule extended_vout_set)
    also have "\<dots> = bit v i" by (rule b)
    finally show ?thesis by simp
  qed
  show ?thesis
  proof (intro conjI allI)
    show "map out_index (utxo_outs entry)
           = snd (decode_vout code) @ map (\<lambda>i. i + 2) (filter (bit v) [0..<length (bin_nat (nat v))])"
      unfolding idx vout e by (rule refl)
    show "bit v i = (i + 2 \<in> set (map out_index (utxo_outs entry)))" for i
      unfolding idx by (rule m)
  qed
qed


theorem bitvector_index_mapping_witness:
  "decode_utxo_cursor id ''010000400500abababababababababababababababababababab8f00'' =
     Inr (\<lparr>utxo_version = 1, utxo_coinbase = 0, utxo_outs = [\<lparr>out_index = 16, out_amount = 5, out_type = 0, out_data = ''abababababababababababababababababababab''\<rparr>], utxo_height = 2048\<rparr>, 56)
   \<and> parse_b128 ''010000400500abababababababababababababababababababab8f00'' 0 = Inr (''01'', 2)
   \<and> parse_b128 ''010000400500abababababababababababababababababababab8f00'' 2 = Inr (''00'', 4)
   \<and> b128_decode ''00'' = Inr 0
   \<and> 0 < fst (decode_vout 0)
   \<and> bitvector_while ''010000400500abababababababababababababababababababab8f00'' (nat (fst (decode_vout 0))) [] 4 = (0, ''0040'', 8)
   \<and> int16 (change_endianness ''0040'') = Some 16384
   \<and> bit (16384 :: int) 14
   \<and> 14 + 2 \<in> set (map out_index (utxo_outs \<lparr>utxo_version = 1, utxo_coinbase = 0, utxo_outs = [\<lparr>out_index = 16, out_amount = 5, out_type = 0, out_data = ''abababababababababababababababababababab''\<rparr>], utxo_height = 2048\<rparr>))"
proof -
  have h5: "0 < fst (decode_vout 0)" by (simp add: ex_decode_vout)
  have h6: "bitvector_while ''010000400500abababababababababababababababababababab8f00'' (nat (fst (decode_vout 0))) [] 4 = (0, ''0040'', 8)"
    using ex_bitvector_while by (simp add: ex_decode_vout)
  have h8: "bit (16384 :: int) 14" by code_simp
  have "14 + 2 \<in> set (map out_index (utxo_outs \<lparr>utxo_version = 1, utxo_coinbase = 0, utxo_outs = [\<lparr>out_index = 16, out_amount = 5, out_type = 0, out_data = ''abababababababababababababababababababab''\<rparr>], utxo_height = 2048\<rparr>))"
    using bitvector_index_mapping [OF ex_decode_utxo_cursor ex_version ex_code ex_decode_00 h5 h6
        ex_bitvector_value] h8
    by blast
  then show ?thesis
    using ex_decode_utxo_cursor ex_version ex_code ex_decode_00 h5 h6 ex_bitvector_value h8
    by blast
qed

lemma slice_append: "offset + k \<le> length utxo \<Longrightarrow> take k (drop offset (utxo @ s)) = take k (drop offset utxo)"
  by simp

lemma parse_b128_while_step:
  "more_bytes \<noteq> 0 \<Longrightarrow> parse_b128_while utxo data offset more_bytes = Inr r \<Longrightarrow>
   \<exists>d. int16 (take 2 (drop offset utxo)) = Some d
      \<and> parse_b128_while utxo (data @ take 2 (drop offset utxo)) (offset + 2) (d AND 0x80) = Inr r"
  by (subst (asm) parse_b128_while.simps) (auto split: option.splits)

lemma parse_b128_while_mono:
  "parse_b128_while utxo data offset more_bytes = Inr (d, offset1) \<Longrightarrow> offset \<le> offset1"
proof (induction utxo data offset more_bytes rule: parse_b128_while.induct)
  case (1 utxo data offset more_bytes)
  show ?case
  proof (cases "more_bytes = 0")
    case True
    then show ?thesis using "1.prems" by (subst (asm) parse_b128_while.simps) simp
  next
    case False
    obtain x where x: "int16 (take 2 (drop offset utxo)) = Some x"
      "parse_b128_while utxo (data @ take 2 (drop offset utxo)) (offset + 2) (x AND 0x80) = Inr (d, offset1)"
      using parse_b128_while_step [OF False "1.prems"] by auto
    show ?thesis using "1.IH" [OF False x(1) x(2)] by simp
  qed
qed

lemma parse_b128_while_append:
  "parse_b128_while utxo data offset more_bytes = Inr (d, offset1) \<Longrightarrow> offset1 \<le> length utxo \<Longrightarrow>
   parse_b128_while (utxo @ s) data offset more_bytes = Inr (d, offset1)"
proof (induction utxo data offset more_bytes rule: parse_b128_while.induct)
  case (1 utxo data offset more_bytes)
  show ?case
  proof (cases "more_bytes = 0")
    case True
    then show ?thesis
      using "1.prems" by (subst (asm) parse_b128_while.simps, subst parse_b128_while.simps) simp
  next
    case False
    obtain x where x: "int16 (take 2 (drop offset utxo)) = Some x"
      "parse_b128_while utxo (data @ take 2 (drop offset utxo)) (offset + 2) (x AND 0x80) = Inr (d, offset1)"
      using parse_b128_while_step [OF False "1.prems"(1)] by auto
    have "offset + 2 \<le> length utxo"
      using parse_b128_while_mono [OF x(2)] "1.prems"(2) by simp
    then have e: "take 2 (drop offset (utxo @ s)) = take 2 (drop offset utxo)"
      by (rule slice_append)
    show ?thesis
      using "1.IH" [OF False x(1) x(2) "1.prems"(2)] False x(1)
      by (subst parse_b128_while.simps, unfold e) simp
  qed
qed

lemma parse_b128_mono: "parse_b128 utxo offset = Inr (d, offset1) \<Longrightarrow> offset + 2 \<le> offset1"
  by (auto simp: parse_b128_def Let_def split: option.splits dest: parse_b128_while_mono)

lemma parse_b128_inside: "parse_b128 utxo offset = Inr (d, offset1) \<Longrightarrow> offset < length utxo"
proof -
  assume "parse_b128 utxo offset = Inr (d, offset1)"
  then have "take 2 (drop offset utxo) \<noteq> []"
    by (auto simp: parse_b128_def Let_def int16_def split: option.splits)
  then show ?thesis by simp
qed

lemma parse_b128_append:
  assumes "parse_b128 utxo offset = Inr (d, offset1)" "offset1 \<le> length utxo"
  shows "parse_b128 (utxo @ s) offset = Inr (d, offset1)"
proof -
  obtain x where x: "int16 (take 2 (drop offset utxo)) = Some x"
    "parse_b128_while utxo (take 2 (drop offset utxo)) (offset + 2) (x AND 0x80) = Inr (d, offset1)"
    using assms(1) by (auto simp: parse_b128_def Let_def split: option.splits)
  have "offset + 2 \<le> length utxo"
    using parse_b128_while_mono [OF x(2)] assms(2) by simp
  then have e: "take 2 (drop offset (utxo @ s)) = take 2 (drop offset utxo)"
    by (rule slice_append)
  show ?thesis
    using parse_b128_while_append [OF x(2) assms(2)] x(1)
    unfolding parse_b128_def Let_def e by simp
qed

lemma bitvector_while_mono:
  "bitvector_while utxo n bv offset = (n1, bv1, offset1) \<Longrightarrow> offset \<le> offset1"
proof (induction utxo n bv offset rule: bitvector_while.induct)
  case (1 utxo n bitvector offset)
  show ?case
  proof (cases "n = 0")
    case True
    then show ?thesis using "1.prems" by (subst (asm) bitvector_while.simps) simp
  next
    case False
    then show ?thesis
      using "1.prems" "1.IH" [OF False refl refl]
      by (subst (asm) bitvector_while.simps) (simp add: Let_def)
  qed
qed

lemma bitvector_while_append:
  "bitvector_while utxo n bv offset = (n1, bv1, offset1) \<Longrightarrow> offset1 \<le> length utxo \<Longrightarrow>
   bitvector_while (utxo @ s) n bv offset = (n1, bv1, offset1)"
proof (induction utxo n bv offset rule: bitvector_while.induct)
  case (1 utxo n bitvector offset)
  show ?case
  proof (cases "n = 0")
    case True
    then show ?thesis
      using "1.prems" by (subst (asm) bitvector_while.simps, subst bitvector_while.simps) simp
  next
    case False
    define data where "data = take 2 (drop offset utxo)"
    define m where "m = (if data \<noteq> ''00'' then n - 1 else n)"
    have r: "bitvector_while utxo m (bitvector @ data) (offset + 2) = (n1, bv1, offset1)"
      using "1.prems"(1) False
      by (subst (asm) bitvector_while.simps) (simp add: Let_def data_def m_def)
    have "offset + 2 \<le> length utxo"
      using bitvector_while_mono [OF r] "1.prems"(2) by simp
    then have e: "take 2 (drop offset (utxo @ s)) = data"
      unfolding data_def by (rule slice_append)
    have "bitvector_while (utxo @ s) m (bitvector @ data) (offset + 2) = (n1, bv1, offset1)"
      using "1.IH" [OF False data_def m_def r "1.prems"(2)] .
    then show ?thesis
      using False by (subst bitvector_while.simps, unfold e) (simp add: Let_def m_def)
  qed
qed

lemma decode_bitvector_mono:
  "decode_bitvector utxo n offset vout = Inr (vout1, offset1) \<Longrightarrow> offset \<le> offset1"
  by (auto simp: decode_bitvector_def Let_def split: if_splits prod.splits option.splits
           dest: bitvector_while_mono)

lemma decode_bitvector_append:
  assumes "decode_bitvector utxo n offset vout = Inr (vout1, offset1)" "offset1 \<le> length utxo"
  shows "decode_bitvector (utxo @ s) n offset vout = Inr (vout1, offset1)"
proof (cases "n > 0")
  case True
  obtain n1 bv o1 where w: "bitvector_while utxo (nat n) [] offset = (n1, bv, o1)"
    by (cases "bitvector_while utxo (nat n) [] offset") auto
  have "o1 = offset1"
    using assms(1) True w by (auto simp: decode_bitvector_def Let_def split: option.splits)
  then have "bitvector_while (utxo @ s) (nat n) [] offset = (n1, bv, o1)"
    using bitvector_while_append [OF w] assms(2) by simp
  then show ?thesis
    using assms(1) True w by (simp add: decode_bitvector_def)
next
  case False
  then show ?thesis using assms(1) by (simp add: decode_bitvector_def)
qed


lemma decode_out_Inr:
  assumes "decode_out decompress utxo i offset = Inr (out, offset4)"
  shows "\<exists>data offset1 a out_type_hex offset2 otype.
           parse_b128 utxo offset = Inr (data, offset1)
         \<and> b128_decode data = Inr a
         \<and> parse_b128 utxo offset1 = Inr (out_type_hex, offset2)
         \<and> b128_decode out_type_hex = Inr otype
         \<and> offset4 = (if otype \<in> {2, 3, 4, 5} then offset2 - 2 else offset2)
                     + (if otype \<in> {0, 1} then 40
                        else if otype \<in> {2, 3, 4, 5} then 66
                        else nat ((otype - NSPECIALSCRIPTS) * 2))
         \<and> out = \<lparr>out_index = i, out_amount = decompress a, out_type = otype,
                   out_data = take (if otype \<in> {0, 1} then 40
                                    else if otype \<in> {2, 3, 4, 5} then 66
                                    else nat ((otype - NSPECIALSCRIPTS) * 2))
                                (drop (if otype \<in> {2, 3, 4, 5} then offset2 - 2 else offset2) utxo)\<rparr>"
proof -
  obtain data offset1 where p1: "parse_b128 utxo offset = Inr (data, offset1)"
    using assms unfolding decode_out_def by (cases "parse_b128 utxo offset") auto
  obtain a where a: "b128_decode data = Inr a"
    using assms unfolding decode_out_def p1 by (cases "b128_decode data") auto
  obtain out_type_hex offset2 where p2: "parse_b128 utxo offset1 = Inr (out_type_hex, offset2)"
    using assms unfolding decode_out_def p1 by (cases "parse_b128 utxo offset1") (auto simp: a)
  obtain otype where t: "b128_decode out_type_hex = Inr otype"
    using assms unfolding decode_out_def p1 by (cases "b128_decode out_type_hex") (auto simp: a p2)
  have "decode_out decompress utxo i offset =
          Inr (\<lparr>out_index = i, out_amount = decompress a, out_type = otype,
                 out_data = take (if otype \<in> {0, 1} then 40
                                  else if otype \<in> {2, 3, 4, 5} then 66
                                  else nat ((otype - NSPECIALSCRIPTS) * 2))
                              (drop (if otype \<in> {2, 3, 4, 5} then offset2 - 2 else offset2) utxo)\<rparr>,
               (if otype \<in> {2, 3, 4, 5} then offset2 - 2 else offset2)
                 + (if otype \<in> {0, 1} then 40
                    else if otype \<in> {2, 3, 4, 5} then 66
                    else nat ((otype - NSPECIALSCRIPTS) * 2)))"
    unfolding decode_out_def Let_def p1 by (simp add: a p2 t split del: if_split)
  then show ?thesis using assms p1 a p2 t by (simp split del: if_split)
qed

lemma decode_out_mono:
  assumes "decode_out decompress utxo i offset = Inr (out, offset4)"
  shows "offset \<le> offset4"
proof -
  obtain data offset1 out_type_hex offset2 and otype :: int where d:
    "parse_b128 utxo offset = Inr (data, offset1)"
    "parse_b128 utxo offset1 = Inr (out_type_hex, offset2)"
    "offset4 = (if otype \<in> {2, 3, 4, 5} then offset2 - 2 else offset2)
                     + (if otype \<in> {0, 1} then 40
                        else if otype \<in> {2, 3, 4, 5} then 66
                        else nat ((otype - NSPECIALSCRIPTS) * 2))"
    using decode_out_Inr [OF assms] by blast
  have "offset + 2 \<le> offset1" "offset1 + 2 \<le> offset2"
    using parse_b128_mono [OF d(1)] parse_b128_mono [OF d(2)] by simp_all
  then show ?thesis unfolding d(3) by (cases "otype \<in> {2, 3, 4, 5}") simp_all
qed

lemma decode_out_append:
  assumes "decode_out decompress utxo i offset = Inr (out, offset4)" "offset4 \<le> length utxo"
  shows "decode_out decompress (utxo @ s) i offset = Inr (out, offset4)"
proof -
  obtain data offset1 a out_type_hex offset2 otype where d:
    "parse_b128 utxo offset = Inr (data, offset1)"
    "b128_decode data = Inr a"
    "parse_b128 utxo offset1 = Inr (out_type_hex, offset2)"
    "b128_decode out_type_hex = Inr otype"
    "offset4 = (if otype \<in> {2, 3, 4, 5} then offset2 - 2 else offset2)
                     + (if otype \<in> {0, 1} then 40
                        else if otype \<in> {2, 3, 4, 5} then 66
                        else nat ((otype - NSPECIALSCRIPTS) * 2))"
    "out = \<lparr>out_index = i, out_amount = decompress a, out_type = otype,
             out_data = take (if otype \<in> {0, 1} then 40
                              else if otype \<in> {2, 3, 4, 5} then 66
                              else nat ((otype - NSPECIALSCRIPTS) * 2))
                          (drop (if otype \<in> {2, 3, 4, 5} then offset2 - 2 else offset2) utxo)\<rparr>"
    using decode_out_Inr [OF assms(1)] by blast
  define data_size where "data_size = (if otype \<in> {0, 1} then 40
                              else if otype \<in> {2, 3, 4, 5} then 66
                              else nat ((otype - NSPECIALSCRIPTS) * 2))"
  define offset3 where "offset3 = (if otype \<in> {2, 3, 4, 5} then offset2 - 2 else offset2)"
  have m: "offset + 2 \<le> offset1" "offset1 + 2 \<le> offset2"
    using parse_b128_mono [OF d(1)] parse_b128_mono [OF d(3)] by simp_all
  have o4: "offset4 = offset3 + data_size" unfolding d(5) data_size_def offset3_def ..
  have o2: "offset2 \<le> offset4"
    unfolding o4 using m by (cases "otype \<in> {2, 3, 4, 5}") (simp_all add: offset3_def data_size_def)
  have p1: "parse_b128 (utxo @ s) offset = Inr (data, offset1)"
    using parse_b128_append [OF d(1)] m o2 assms(2) by simp
  have p2: "parse_b128 (utxo @ s) offset1 = Inr (out_type_hex, offset2)"
    using parse_b128_append [OF d(3)] o2 assms(2) by simp
  have "offset3 + data_size \<le> length utxo" using o4 assms(2) by simp
  then have e: "take data_size (drop offset3 (utxo @ s)) = take data_size (drop offset3 utxo)"
    by (rule slice_append)
  have "decode_out decompress (utxo @ s) i offset =
          Inr (\<lparr>out_index = i, out_amount = decompress a, out_type = otype,
                 out_data = take data_size (drop offset3 (utxo @ s))\<rparr>, offset3 + data_size)"
    unfolding decode_out_def Let_def p1 data_size_def offset3_def
    by (simp add: d(2) p2 d(4) split del: if_split)
  also have "\<dots> = Inr (out, offset4)"
    unfolding e unfolding o4 d(6) data_size_def offset3_def ..
  finally show ?thesis .
qed

lemma decode_outs_mono:
  "decode_outs decompress utxo vout offset acc = Inr (outs, offset1) \<Longrightarrow> offset \<le> offset1"
proof (induction vout arbitrary: offset acc)
  case Nil
  then show ?case by simp
next
  case (Cons i vout)
  then obtain out off where o: "decode_out decompress utxo i offset = Inr (out, off)"
    "decode_outs decompress utxo vout off (acc @ [out]) = Inr (outs, offset1)"
    by (auto split: sum.splits)
  show ?case using decode_out_mono [OF o(1)] Cons.IH [OF o(2)] by simp
qed

lemma decode_outs_append:
  "decode_outs decompress utxo vout offset acc = Inr (outs, offset1) \<Longrightarrow> offset1 \<le> length utxo \<Longrightarrow>
   decode_outs decompress (utxo @ s) vout offset acc = Inr (outs, offset1)"
proof (induction vout arbitrary: offset acc)
  case Nil
  then show ?case by simp
next
  case (Cons i vout)
  then obtain out off where o: "decode_out decompress utxo i offset = Inr (out, off)"
    "decode_outs decompress utxo vout off (acc @ [out]) = Inr (outs, offset1)"
    by (auto split: sum.splits)
  have "off \<le> length utxo" using decode_outs_mono [OF o(2)] Cons.prems(2) by simp
  then have "decode_out decompress (utxo @ s) i offset = Inr (out, off)"
    using decode_out_append [OF o(1)] by simp
  then show ?case using Cons.IH [OF o(2) Cons.prems(2)] by simp
qed

lemma decode_utxo_cursor_append:
  assumes "decode_utxo_cursor decompress utxo = Inr (entry, offset5)" "offset5 \<le> length utxo"
  shows "decode_utxo_cursor decompress (utxo @ s) = Inr (entry, offset5)"
proof -
  obtain version_hex offset1 version code_hex offset2 code vout offset3 outs offset4 height_hex height
    where d:
      "parse_b128 utxo 0 = Inr (version_hex, offset1)"
      "b128_decode version_hex = Inr version"
      "parse_b128 utxo offset1 = Inr (code_hex, offset2)"
      "b128_decode code_hex = Inr code"
      "decode_bitvector utxo (fst (decode_vout code)) offset2 (snd (decode_vout code)) = Inr (vout, offset3)"
      "decode_outs decompress utxo vout offset3 [] = Inr (outs, offset4)"
      "parse_b128 utxo offset4 = Inr (height_hex, offset5)"
      "b128_decode height_hex = Inr height"
      "entry = \<lparr>utxo_version = version, utxo_coinbase = code AND 0x01, utxo_outs = outs,
                 utxo_height = height\<rparr>"
    using decode_utxo_cursor_Inr [OF assms(1)] by blast
  have o4: "offset4 \<le> length utxo" using parse_b128_mono [OF d(7)] assms(2) by simp
  have o3: "offset3 \<le> length utxo" using decode_outs_mono [OF d(6)] o4 by simp
  have o2: "offset2 \<le> length utxo" using decode_bitvector_mono [OF d(5)] o3 by simp
  have o1: "offset1 \<le> length utxo" using parse_b128_mono [OF d(3)] o2 by simp
  show ?thesis
    unfolding decode_utxo_cursor_def
    using parse_b128_append [OF d(1) o1, of s] parse_b128_append [OF d(3) o2, of s]
      decode_bitvector_append [OF d(5) o3, of s] decode_outs_append [OF d(6) o4, of s]
      parse_b128_append [OF d(7) assms(2), of s] d(2,4,8,9)
    by simp
qed

text \<open>
  Claim C3. When \<open>decode_utxo\<close> returns an entry, the cursor it has reached is exactly
  the length of the input; and the same input followed by anything that is not empty (one
  more byte, say) fails the assertion of line 229, the \<open>MalformedRecord\<close> of the
  specification: nothing is cut off or padded silently.
\<close>

theorem decode_utxo_complete:
  "decode_utxo decompress utxo = Inr entry \<Longrightarrow>
   decode_utxo_cursor decompress utxo = Inr (entry, length utxo)
   \<and> (s \<noteq> [] \<longrightarrow> decode_utxo decompress (utxo @ s) = Inl AssertionError)"
proof -
  assume a: "decode_utxo decompress utxo = Inr entry"
  then have c: "decode_utxo_cursor decompress utxo = Inr (entry, length utxo)"
    by (auto simp: decode_utxo_def split: sum.splits if_splits)
  have "decode_utxo_cursor decompress (utxo @ s) = Inr (entry, length utxo)"
    using decode_utxo_cursor_append [OF c] by simp
  then have "s \<noteq> [] \<longrightarrow> decode_utxo decompress (utxo @ s) = Inl AssertionError"
    by (simp add: decode_utxo_def)
  then show ?thesis using c by simp
qed

theorem decode_utxo_complete_witness:
  "decode_utxo id ''010000400500abababababababababababababababababababab8f00'' = Inr (\<lparr>utxo_version = 1, utxo_coinbase = 0, utxo_outs = [\<lparr>out_index = 16, out_amount = 5, out_type = 0, out_data = ''abababababababababababababababababababab''\<rparr>], utxo_height = 2048\<rparr>)
   \<and> decode_utxo_cursor id ''010000400500abababababababababababababababababababab8f00'' = Inr (\<lparr>utxo_version = 1, utxo_coinbase = 0, utxo_outs = [\<lparr>out_index = 16, out_amount = 5, out_type = 0, out_data = ''abababababababababababababababababababab''\<rparr>], utxo_height = 2048\<rparr>, 56)
   \<and> decode_utxo id ''010000400500abababababababababababababababababababab8f0000'' = Inl AssertionError"
proof -
  have h: "decode_utxo id ''010000400500abababababababababababababababababababab8f00'' = Inr (\<lparr>utxo_version = 1, utxo_coinbase = 0, utxo_outs = [\<lparr>out_index = 16, out_amount = 5, out_type = 0, out_data = ''abababababababababababababababababababab''\<rparr>], utxo_height = 2048\<rparr>)"
    by (simp add: decode_utxo_def ex_decode_utxo_cursor)
  show ?thesis
    using decode_utxo_complete [OF h, of "''00''"] h by simp
qed
















section \<open>Properties of the output cost classifier\<close>

lemma int16_51: "int16 ''51'' = Some 81"
  by (simp add: int16_def digit_val_def)

lemma last2_append: "length ys = 2 \<Longrightarrow> drop (length (xs @ ys) - 2) (xs @ ys) = ys"
  by simp

text \<open>
  Claim C4. For every output of type 0 (P2PKH), \<open>get_min_input_size\<close> returns the fixed
  size 40, plus 1 for the length of the scriptSig, plus a scriptSig of 138 bytes when
  the height is below 173480 and of 106 bytes from 173480 on: 179 at height 173479, 147
  at height 173480.
\<close>

theorem p2pkh_min_input_size:
  "out_type out = 0 \<Longrightarrow>
   get_min_input_size out height count_p2sh =
     Inr (40 + 1 + (if height < 173480 then 138 else 106))"
  by (simp add: get_min_input_size_def Let_def)

theorem p2pkh_min_input_size_witness:
  "out_type \<lparr>out_index = 2, out_amount = 1000, out_type = 0, out_data = ''ab''\<rparr> = 0
   \<and> get_min_input_size \<lparr>out_index = 2, out_amount = 1000, out_type = 0, out_data = ''ab''\<rparr> 173479 False = Inr 179
   \<and> get_min_input_size \<lparr>out_index = 2, out_amount = 1000, out_type = 0, out_data = ''ab''\<rparr> 173480 False = Inr 147"
  using p2pkh_min_input_size [of "\<lparr>out_index = 2, out_amount = 1000, out_type = 0, out_data = ''ab''\<rparr>" 173479 False]
    p2pkh_min_input_size [of "\<lparr>out_index = 2, out_amount = 1000, out_type = 0, out_data = ''ab''\<rparr>" 173480 False]
  by simp

text \<open>
  Claim C2, as stated, fails: for an output of type 1 (P2SH) with \<open>count_p2sh\<close> false the
  function returns 0, not \<open>-40\<close>, and for an output of another type whose script is
  not a multisig it returns \<open>-1\<close>, not \<open>-41\<close>. The values \<open>-40\<close> and \<open>-41\<close> are those of
  the variable \<open>scriptSig\<close>, to which line 452 adds the fixed size 40.
\<close>

theorem sentinel_counterexample:
  "get_min_input_size \<lparr>out_index = 0, out_amount = 1000, out_type = 1, out_data = ''ab''\<rparr> 500000 False = Inr 0
   \<and> get_min_input_size \<lparr>out_index = 0, out_amount = 1000, out_type = 1, out_data = ''ab''\<rparr> 500000 False \<noteq> Inr (- 40)
   \<and> check_multisig ''6a00'' True = Inr False
   \<and> get_min_input_size \<lparr>out_index = 0, out_amount = 1000, out_type = 8, out_data = ''6a00''\<rparr> 500000 False = Inr (- 1)
   \<and> get_min_input_size \<lparr>out_index = 0, out_amount = 1000, out_type = 8, out_data = ''6a00''\<rparr> 500000 False \<noteq> Inr (- 41)"
  by (simp add: get_min_input_size_def check_multisig_def int16_def digit_val_def Let_def)

text \<open>
  Claim C2, amended. For every output of type 1, when \<open>count_p2sh\<close> is false,
  \<open>get_min_input_size\<close> returns 0; for every output of a type outside 0 to 5 whose
  script \<open>check_multisig\<close> rejects, it returns \<open>-1\<close>. The two values are distinct, and
  only the second one is negative.
\<close>

theorem exclusion_sentinels:
  "(out_type out = 1 \<longrightarrow> get_min_input_size out height False = Inr 0)
   \<and> (out_type out \<notin> {0, 1, 2, 3, 4, 5} \<and> check_multisig (out_data out) True = Inr False
        \<longrightarrow> get_min_input_size out height count_p2sh = Inr (- 1))
   \<and> (0::int) \<noteq> - 1 \<and> \<not> (0::int) < 0 \<and> (- 1::int) < 0"
  by (simp add: get_min_input_size_def Let_def)

theorem exclusion_sentinels_witness:
  "out_type \<lparr>out_index = 0, out_amount = 1000, out_type = 1, out_data = ''ab''\<rparr> = 1
   \<and> get_min_input_size \<lparr>out_index = 0, out_amount = 1000, out_type = 1, out_data = ''ab''\<rparr> 7 False = Inr 0
   \<and> out_type \<lparr>out_index = 0, out_amount = 1000, out_type = 8, out_data = ''6a00''\<rparr> \<notin> {0, 1, 2, 3, 4, 5}
   \<and> check_multisig (out_data \<lparr>out_index = 0, out_amount = 1000, out_type = 8, out_data = ''6a00''\<rparr>) True = Inr False
   \<and> get_min_input_size \<lparr>out_index = 0, out_amount = 1000, out_type = 8, out_data = ''6a00''\<rparr> 7 True = Inr (- 1)"
  using exclusion_sentinels [of "\<lparr>out_index = 0, out_amount = 1000, out_type = 1, out_data = ''ab''\<rparr>" 7 True]
    exclusion_sentinels [of "\<lparr>out_index = 0, out_amount = 1000, out_type = 8, out_data = ''6a00''\<rparr>" 7 True]
  by (simp add: check_multisig_def int16_def digit_val_def)

text \<open>
  Claim C6, as stated, fails: the first byte of the script \<open>5121...21...52ae\<close> is
  \<open>0x51\<close>, so the number of required signatures computed from it, the value of the
  first byte minus \<open>0x50\<close>, is 1 and not 2.
\<close>

theorem multisig_counterexample:
  "req_sigs (''5121'' @ concat (replicate 33 ''02'') @ ''21'' @ concat (replicate 33 ''03'') @ ''52ae'') = Inr 1
   \<and> req_sigs (''5121'' @ concat (replicate 33 ''02'') @ ''21'' @ concat (replicate 33 ''03'') @ ''52ae'') \<noteq> Inr 2"
  by (simp add: req_sigs_def int16_def digit_val_def)

text \<open>
  Claim C6, amended. Every script \<open>5121 k1 21 k2 52ae\<close> is accepted by \<open>check_multisig\<close>
  in standard mode, the number of required signatures computed for it is 1 (the value
  of the first byte minus \<open>0x50\<close>), so that \<open>get_min_input_size\<close> returns
  \<open>40 + 1 + (1 + 1 * 72) = 114\<close> for an output of a type from 6 on that holds it; the
  same script without its last byte \<open>ae\<close> is rejected.
\<close>

theorem multisig_detection:
  "check_multisig (''5121'' @ k1 @ ''21'' @ k2 @ ''52ae'') True = Inr True
   \<and> req_sigs (''5121'' @ k1 @ ''21'' @ k2 @ ''52ae'') = Inr 1
   \<and> get_min_input_size \<lparr>out_index = i, out_amount = a, out_type = 6 + int m,
         out_data = ''5121'' @ k1 @ ''21'' @ k2 @ ''52ae''\<rparr> height count_p2sh = Inr 114
   \<and> check_multisig (''5121'' @ k1 @ ''21'' @ k2 @ ''52'') True = Inr False"
proof -
  have e: "''5121'' @ k1 @ ''21'' @ k2 @ ''52ae'' = (''5121'' @ k1 @ ''21'' @ k2 @ ''52'') @ ''ae''"
    by simp
  have l: "drop (length (''5121'' @ k1 @ ''21'' @ k2 @ ''52ae'') - 2) (''5121'' @ k1 @ ''21'' @ k2 @ ''52ae'') = ''ae''"
    unfolding e by (rule last2_append) simp
  have l2: "drop (length (''5121'' @ k1 @ ''21'' @ k2 @ ''52'') - 2) (''5121'' @ k1 @ ''21'' @ k2 @ ''52'') = ''52''"
    by simp
  have c: "check_multisig (''5121'' @ k1 @ ''21'' @ k2 @ ''52ae'') True = Inr True"
    unfolding check_multisig_def l by (simp add: int16_51)
  have c2: "check_multisig (''5121'' @ k1 @ ''21'' @ k2 @ ''52'') True = Inr False"
    unfolding check_multisig_def l2 by (simp add: int16_51)
  have r: "req_sigs (''5121'' @ k1 @ ''21'' @ k2 @ ''52ae'') = Inr 1"
    by (simp add: req_sigs_def int16_51)
  have g: "get_min_input_size \<lparr>out_index = i, out_amount = a, out_type = 6 + int m,
         out_data = ''5121'' @ k1 @ ''21'' @ k2 @ ''52ae''\<rparr> height count_p2sh = Inr 114"
    using c r unfolding get_min_input_size_def by (simp add: Let_def)
  show ?thesis using c c2 r g by simp
qed

section \<open>Properties of the fee-threshold accumulator\<close>

lemma table_le_refl: "table_le m m"
  by (simp add: table_le_def)

lemma table_le_trans: "table_le a b \<Longrightarrow> table_le b c \<Longrightarrow> table_le a c"
  unfolding table_le_def by (meson order_trans)

lemma counts_le_refl: "counts_le st st"
  by (simp add: counts_le_def table_le_refl)

lemma counts_le_trans: "counts_le a b \<Longrightarrow> counts_le b c \<Longrightarrow> counts_le a c"
  unfolding counts_le_def by (meson table_le_trans order_trans)

lemma sums_le_refl: "sums_le st st"
  by (simp add: sums_le_def table_le_refl)

lemma sums_le_trans: "sums_le a b \<Longrightarrow> sums_le b c \<Longrightarrow> sums_le a c"
  unfolding sums_le_def by (meson table_le_trans order_trans)

lemma add_to_le: "add_to d k v = Inr d' \<Longrightarrow> 0 \<le> v \<Longrightarrow> table_le d d'"
  by (auto simp: add_to_def table_le_def split: option.splits)

lemma add_to_at: "add_to d k v = Inr d' \<Longrightarrow> d r = Some c \<Longrightarrow> d' r = Some (if r = k then c + v else c)"
  by (auto simp: add_to_def split: option.splits)

lemma dust_step_counts: "dust_step ln f st = Inr st' \<Longrightarrow> counts_le st st'"
  by (auto simp: dust_step_def counts_le_def table_le_refl split: if_splits sum.splits
           dest: add_to_le)

lemma lm_step_counts: "lm_step ln f st = Inr st' \<Longrightarrow> counts_le st st'"
  by (auto simp: lm_step_def counts_le_def table_le_refl split: if_splits sum.splits
           dest: add_to_le)

lemma dust_step_sums:
  "dust_step ln f st = Inr st' \<Longrightarrow> 0 \<le> l_amount ln \<Longrightarrow> 0 \<le> l_utxo_data_len ln \<Longrightarrow> sums_le st st'"
  by (auto simp: dust_step_def sums_le_def table_le_refl split: if_splits sum.splits
           dest: add_to_le)

lemma lm_step_sums:
  "lm_step ln f st = Inr st' \<Longrightarrow> 0 \<le> l_amount ln \<Longrightarrow> 0 \<le> l_utxo_data_len ln \<Longrightarrow> sums_le st st'"
  by (auto simp: lm_step_def sums_le_def table_le_refl split: if_splits sum.splits
           dest: add_to_le)

lemma fee_loop_counts: "fee_loop ln fees st = Inr st' \<Longrightarrow> counts_le st st'"
proof (induction fees arbitrary: st)
  case Nil
  then show ?case by (simp add: counts_le_refl)
next
  case (Cons f fees)
  then obtain st1 st2 where s: "dust_step ln f st = Inr st1" "lm_step ln f st1 = Inr st2"
    "fee_loop ln fees st2 = Inr st'"
    by (auto split: sum.splits)
  show ?case
    using dust_step_counts [OF s(1)] lm_step_counts [OF s(2)] Cons.IH [OF s(3)]
    by (blast intro: counts_le_trans)
qed

lemma fee_loop_sums:
  "fee_loop ln fees st = Inr st' \<Longrightarrow> 0 \<le> l_amount ln \<Longrightarrow> 0 \<le> l_utxo_data_len ln \<Longrightarrow> sums_le st st'"
proof (induction fees arbitrary: st)
  case Nil
  then show ?case by (simp add: sums_le_refl)
next
  case (Cons f fees)
  then obtain st1 st2 where s: "dust_step ln f st = Inr st1" "lm_step ln f st1 = Inr st2"
    "fee_loop ln fees st2 = Inr st'"
    by (auto split: sum.splits)
  show ?case
    using dust_step_sums [OF s(1)] lm_step_sums [OF s(2)] Cons.IH [OF s(3)] Cons.prems
    by (blast intro: sums_le_trans)
qed

lemma line_step_counts: "line_step fees ln st = Inr st' \<Longrightarrow> counts_le st st'"
proof -
  assume a: "line_step fees ln st = Inr st'"
  then obtain st1 where s: "fee_loop ln fees st = Inr st1"
    "st' = st1\<lparr>total_utxo := total_utxo st1 + 1, total_value := total_value st1 + l_amount ln,
              total_data_len := total_data_len st1 + l_utxo_data_len ln\<rparr>"
    by (auto simp: line_step_def split: sum.splits)
  have "counts_le st1 st'" by (simp add: s(2) counts_le_def table_le_refl)
  then show ?thesis using fee_loop_counts [OF s(1)] by (blast intro: counts_le_trans)
qed

lemma line_step_sums:
  assumes "line_step fees ln st = Inr st'" "0 \<le> l_amount ln" "0 \<le> l_utxo_data_len ln"
  shows "sums_le st st'"
proof -
  obtain st1 where s: "fee_loop ln fees st = Inr st1"
    "st' = st1\<lparr>total_utxo := total_utxo st1 + 1, total_value := total_value st1 + l_amount ln,
              total_data_len := total_data_len st1 + l_utxo_data_len ln\<rparr>"
    using assms(1) by (auto simp: line_step_def split: sum.splits)
  have "sums_le st1 st'" using assms(2,3) by (simp add: s(2) sums_le_def table_le_refl)
  then show ?thesis using fee_loop_sums [OF s(1) assms(2,3)] by (blast intro: sums_le_trans)
qed

lemma line_loop_counts: "line_loop fees lns st = Inr st' \<Longrightarrow> counts_le st st'"
proof (induction lns arbitrary: st)
  case Nil
  then show ?case by (simp add: counts_le_refl)
next
  case (Cons ln lns)
  then obtain st1 where s: "line_step fees ln st = Inr st1" "line_loop fees lns st1 = Inr st'"
    by (auto split: sum.splits)
  show ?case using line_step_counts [OF s(1)] Cons.IH [OF s(2)] by (blast intro: counts_le_trans)
qed

lemma line_loop_sums:
  "line_loop fees lns st = Inr st' \<Longrightarrow>
   \<forall>ln \<in> set lns. 0 \<le> l_amount ln \<and> 0 \<le> l_utxo_data_len ln \<Longrightarrow> sums_le st st'"
proof (induction lns arbitrary: st)
  case Nil
  then show ?case by (simp add: sums_le_refl)
next
  case (Cons ln lns)
  then obtain st1 where s: "line_step fees ln st = Inr st1" "line_loop fees lns st1 = Inr st'"
    by (auto split: sum.splits)
  have "sums_le st st1" using line_step_sums [OF s(1)] Cons.prems(2) by simp
  moreover have "sums_le st1 st'" using Cons.IH [OF s(2)] Cons.prems(2) by simp
  ultimately show ?case by (blast intro: sums_le_trans)
qed

lemma dust_step_at:
  "dust_step ln f st = Inr st' \<Longrightarrow> dust st r = Some c \<Longrightarrow>
   dust st' r = Some (if r = f \<and> l_dust ln \<le> f \<and> l_dust ln \<noteq> 0 then c + 1 else c)"
  by (auto simp: dust_step_def split: if_splits sum.splits dest: add_to_at)

lemma lm_step_dust: "lm_step ln f st = Inr st' \<Longrightarrow> dust st' = dust st"
  by (auto simp: lm_step_def split: if_splits sum.splits)

lemma fee_loop_at:
  "fee_loop ln fees st = Inr st' \<Longrightarrow> distinct fees \<Longrightarrow> dust st r = Some c \<Longrightarrow>
   dust st' r = Some (if r \<in> set fees \<and> l_dust ln \<le> r \<and> l_dust ln \<noteq> 0 then c + 1 else c)"
proof (induction fees arbitrary: st c)
  case Nil
  then show ?case by simp
next
  case (Cons f fees)
  then obtain st1 st2 where s: "dust_step ln f st = Inr st1" "lm_step ln f st1 = Inr st2"
    "fee_loop ln fees st2 = Inr st'"
    by (auto split: sum.splits)
  have d2: "dust st2 r = Some (if r = f \<and> l_dust ln \<le> f \<and> l_dust ln \<noteq> 0 then c + 1 else c)"
    using dust_step_at [OF s(1) Cons.prems(3)] lm_step_dust [OF s(2)] by simp
  have "distinct fees" "f \<notin> set fees" using Cons.prems(2) by simp_all
  then show ?case using Cons.IH [OF s(3) _ d2] by auto
qed

lemma line_step_at:
  assumes "line_step fees ln st = Inr st'" "distinct fees" "dust st r = Some c"
  shows "dust st' r = Some (if r \<in> set fees \<and> l_dust ln \<le> r \<and> l_dust ln \<noteq> 0 then c + 1 else c)"
proof -
  obtain st1 where s: "fee_loop ln fees st = Inr st1" "dust st' = dust st1"
    using assms(1) by (auto simp: line_step_def split: sum.splits)
  show ?thesis using fee_loop_at [OF s(1) assms(2,3)] s(2) by simp
qed

lemma py_range_distinct: "py_range lo hi stp = Inr fees \<Longrightarrow> distinct fees"
  by (auto simp: py_range_def distinct_map inj_on_def split: if_splits)

lemma zero_table_at: "r \<in> set fees \<Longrightarrow> zero_table fees r = Some 0"
  by (induction fees) (auto simp: zero_table_def)

lemma accumulate_single_at:
  assumes "accumulate_dust_lm lo hi stp [ln] = Inr st1" "py_range lo hi stp = Inr fees"
    "r \<in> set fees"
  shows "dust st1 r = Some (if l_dust ln \<le> r \<and> l_dust ln \<noteq> 0 then 1 else 0)"
proof -
  have s: "line_step fees ln (init_state fees) = Inr st1"
    using assms(1,2) by (auto simp: accumulate_dust_lm_def split: sum.splits)
  have "dust (init_state fees) r = Some 0"
    using assms(3) by (simp add: init_state_def zero_table_at)
  then show ?thesis
    using line_step_at [OF s py_range_distinct [OF assms(2)]] assms(3) by simp
qed

text \<open>
  Claim C9, as stated, fails: line 324 increments the dust counters only for a line
  whose \<open>dust\<close> value is not 0. For a line with the value 0, every fee rate of
  \<open>range(0, 3, 1)\<close> is at or above that value, and no dust counter is incremented.
\<close>

theorem accumulate_counterexample:
  "dust_bucket 0 (accumulate_dust_lm 0 3 1 [\<lparr>l_dust = 0, l_loss_making = 0, l_amount = 0, l_utxo_data_len = 25\<rparr>]) = Some 0
   \<and> dust_bucket 1 (accumulate_dust_lm 0 3 1 [\<lparr>l_dust = 0, l_loss_making = 0, l_amount = 0, l_utxo_data_len = 25\<rparr>]) = Some 0
   \<and> dust_bucket 2 (accumulate_dust_lm 0 3 1 [\<lparr>l_dust = 0, l_loss_making = 0, l_amount = 0, l_utxo_data_len = 25\<rparr>]) = Some 0
   \<and> py_range 0 3 1 = Inr [0, 1, 2]
   \<and> l_dust \<lparr>l_dust = 0, l_loss_making = 0, l_amount = 0, l_utxo_data_len = 25\<rparr> \<le> 0"
  by code_simp

text \<open>
  Claim C9, amended. While lines are folded in, no counter (\<open>dust\<close>, \<open>lm\<close>,
  \<open>total_utxo\<close>) ever decreases, and no sum of amounts or of data lengths decreases when
  the amounts and the data lengths of the lines are not negative. For a single line, the
  dust counter of a fee rate is incremented (by one) exactly when the rate is one of the
  range, is at or above the \<open>dust\<close> value of the line, and that value is not 0; no other
  dust counter changes.
\<close>

theorem accumulate_monotone:
  "(line_loop fees lns st = Inr st' \<longrightarrow> counts_le st st')
   \<and> (line_loop fees lns st = Inr st' \<and> (\<forall>ln \<in> set lns. 0 \<le> l_amount ln \<and> 0 \<le> l_utxo_data_len ln)
        \<longrightarrow> sums_le st st')
   \<and> (line_step fees ln st = Inr st1 \<and> distinct fees \<and> dust st r = Some c
        \<longrightarrow> dust st1 r = Some (if r \<in> set fees \<and> l_dust ln \<le> r \<and> l_dust ln \<noteq> 0 then c + 1 else c))
   \<and> (accumulate_dust_lm lo hi stp [ln] = Inr st2 \<and> py_range lo hi stp = Inr fees2 \<and> r2 \<in> set fees2
        \<longrightarrow> dust st2 r2 = Some (if l_dust ln \<le> r2 \<and> l_dust ln \<noteq> 0 then 1 else 0))"
proof (intro conjI impI)
  show "line_loop fees lns st = Inr st' \<Longrightarrow> counts_le st st'"
    by (rule line_loop_counts)
  show "line_loop fees lns st = Inr st' \<and> (\<forall>ln \<in> set lns. 0 \<le> l_amount ln \<and> 0 \<le> l_utxo_data_len ln)
        \<Longrightarrow> sums_le st st'"
    using line_loop_sums by blast
  show "line_step fees ln st = Inr st1 \<and> distinct fees \<and> dust st r = Some c
        \<Longrightarrow> dust st1 r = Some (if r \<in> set fees \<and> l_dust ln \<le> r \<and> l_dust ln \<noteq> 0 then c + 1 else c)"
    using line_step_at by blast
  show "accumulate_dust_lm lo hi stp [ln] = Inr st2 \<and> py_range lo hi stp = Inr fees2 \<and> r2 \<in> set fees2
        \<Longrightarrow> dust st2 r2 = Some (if l_dust ln \<le> r2 \<and> l_dust ln \<noteq> 0 then 1 else 0)"
    using accumulate_single_at by blast
qed


theorem accumulate_monotone_witness:
  "\<not> isl (line_loop [0, 1, 2] [\<lparr>l_dust = 1, l_loss_making = 2, l_amount = 10, l_utxo_data_len = 25\<rparr>] (init_state [0, 1, 2]))
   \<and> 0 \<le> l_amount \<lparr>l_dust = 1, l_loss_making = 2, l_amount = 10, l_utxo_data_len = 25\<rparr>
   \<and> 0 \<le> l_utxo_data_len \<lparr>l_dust = 1, l_loss_making = 2, l_amount = 10, l_utxo_data_len = 25\<rparr>
   \<and> \<not> isl (line_step [0, 1, 2] \<lparr>l_dust = 1, l_loss_making = 2, l_amount = 10, l_utxo_data_len = 25\<rparr> (init_state [0, 1, 2]))
   \<and> distinct [0, 1, 2 :: int]
   \<and> dust (init_state [0, 1, 2]) 0 = Some 0
   \<and> dust (init_state [0, 1, 2]) 1 = Some 0
   \<and> dust (projr (line_step [0, 1, 2] \<lparr>l_dust = 1, l_loss_making = 2, l_amount = 10, l_utxo_data_len = 25\<rparr> (init_state [0, 1, 2]))) 0 = Some 0
   \<and> dust (projr (line_step [0, 1, 2] \<lparr>l_dust = 1, l_loss_making = 2, l_amount = 10, l_utxo_data_len = 25\<rparr> (init_state [0, 1, 2]))) 1 = Some 1
   \<and> total_utxo (init_state [0, 1, 2])
       \<le> total_utxo (projr (line_loop [0, 1, 2] [\<lparr>l_dust = 1, l_loss_making = 2, l_amount = 10, l_utxo_data_len = 25\<rparr>] (init_state [0, 1, 2])))
   \<and> total_value (init_state [0, 1, 2])
       \<le> total_value (projr (line_loop [0, 1, 2] [\<lparr>l_dust = 1, l_loss_making = 2, l_amount = 10, l_utxo_data_len = 25\<rparr>] (init_state [0, 1, 2])))"
proof -
  define L where "L = \<lparr>l_dust = 1, l_loss_making = 2, l_amount = 10, l_utxo_data_len = 25\<rparr>"
  define I where "I = init_state [0, 1, 2]"
  have n1: "\<not> isl (line_loop [0, 1, 2] [L] I)" unfolding L_def I_def by code_simp
  have n2: "\<not> isl (line_step [0, 1, 2] L I)" unfolding L_def I_def by code_simp
  have r1: "line_loop [0, 1, 2] [L] I = Inr (projr (line_loop [0, 1, 2] [L] I))"
    using n1 by simp
  have r2: "line_step [0, 1, 2] L I = Inr (projr (line_step [0, 1, 2] L I))"
    using n2 by simp
  have p: "0 \<le> l_amount L" "0 \<le> l_utxo_data_len L" by (simp_all add: L_def)
  have d: "dust I 0 = Some 0" "dust I 1 = Some 0" by (simp_all add: I_def init_state_def zero_table_def)
  have m0: "dust (projr (line_step [0, 1, 2] L I)) 0 = Some 0"
    using accumulate_monotone [of "[0, 1, 2]" "[L]" I "projr (line_loop [0, 1, 2] [L] I)" L
        "projr (line_step [0, 1, 2] L I)" 0 0] r2 d
    by (simp add: L_def)
  have m1: "dust (projr (line_step [0, 1, 2] L I)) 1 = Some 1"
    using accumulate_monotone [of "[0, 1, 2]" "[L]" I "projr (line_loop [0, 1, 2] [L] I)" L
        "projr (line_step [0, 1, 2] L I)" 1 0] r2 d
    by (simp add: L_def)
  have c: "counts_le I (projr (line_loop [0, 1, 2] [L] I))" "sums_le I (projr (line_loop [0, 1, 2] [L] I))"
    using accumulate_monotone [of "[0, 1, 2]" "[L]" I "projr (line_loop [0, 1, 2] [L] I)" L
        "projr (line_step [0, 1, 2] L I)" 1 0] r1 p
    by simp_all
  show ?thesis
    using n1 n2 p d m0 m1 c unfolding L_def [symmetric] I_def [symmetric]
    by (simp add: counts_le_def sums_le_def)
qed

end
